theory Spec2Isabelle
  imports Main "HOL-Library.Word"
begin

section \<open>Data model (gofsm.h)\<close>

text \<open>
  Node indices and all counters and flags of the engine are \<^verbatim>\<open>uint8_t\<close>.
  The three enums are datatypes with the enumerators the header declares.
\<close>

type_synonym uint8_t = "8 word"
type_synonym GOFSM_Node_Index_t = "8 word"

datatype GOFSM_Transition_Result_t =
  GOFSM_Transition_Result_Failure | GOFSM_Transition_Result_Success

datatype GOFSM_Transition_State_t =
  GOFSM_Transition_State_Blocked | GOFSM_Transition_State_Available

datatype GOFSM_Error_t =
  GOFSM_Error_No | GOFSM_Error_OwerstackTransitions | GOFSM_Error_NotRegisteredTransition

text \<open>
  The engine does not own its transitions: it stores \<^verbatim>\<open>GOFSM_Transition_t*\<close>. A pointer is
  \<open>NULL\<close> or the address of an object, and the transition objects of the owner live in a
  store that maps an address to the object found there. \<open>NULL\<close> and an address outside
  the store (an object that no longer exists) cannot be dereferenced.

  The action of a transition is a function pointer of the owner. It receives the
  transition's address and acts on the owner's world \<open>'w\<close>, which is disjoint from the
  engine and from the transition objects; an absent action is \<open>None\<close>.
  (\<open>function\<close> is a reserved word, hence the field name \<open>function_ptr\<close>.)
\<close>

datatype ptr = NULL | Object nat

record 'w GOFSM_Transition_t =
  source_node_index :: GOFSM_Node_Index_t
  destination_node_index :: GOFSM_Node_Index_t
  function_ptr :: "(ptr \<Rightarrow> 'w \<Rightarrow> GOFSM_Transition_Result_t \<times> 'w) option"
  state :: GOFSM_Transition_State_t

type_synonym 'w store = "nat \<Rightarrow> 'w GOFSM_Transition_t option"

definition deref :: "'w store \<Rightarrow> ptr \<Rightarrow> 'w GOFSM_Transition_t option" where
  "deref h p = (case p of NULL \<Rightarrow> None | Object a \<Rightarrow> h a)"

text \<open>
  \<open>transitions\<close> and \<open>alg_nodes_buffer\<close> are the two arrays the engine points to; the
  length of each list is the number of cells that were allocated for it.
\<close>

record GOFSM_t =
  nodes_capacity :: uint8_t
  transitions_count :: uint8_t
  transitions_capacity :: uint8_t
  transitions :: "ptr list"
  transition_current :: ptr
  current_node_index :: GOFSM_Node_Index_t
  target_node_index :: GOFSM_Node_Index_t
  alg_nodes_buffer :: "GOFSM_Node_Index_t list"
  is_target_change :: uint8_t
  is_transition_failure :: uint8_t
  is_graph_reconfigured :: uint8_t
  is_dyn :: uint8_t

text \<open>
  Undefined behaviour of the C program is a value of the model: dereferencing an address
  that holds no transition, and reading or writing one of the two arrays outside its
  cells. \<^verbatim>\<open>GOFSM_ASSERT\<close> expands to \<^verbatim>\<open>((void)0)\<close> in the header as it is
  (\<^verbatim>\<open>GOFSM_ASSERT_ENABLED\<close> is commented out), so assertions do nothing.
\<close>

datatype fault = Invalid_Pointer | Buffer_Overrun | Array_Overrun

section \<open>GOFSM_SearchNextStep\<close>

text \<open>
  The locals of the search. The three counters are \<^verbatim>\<open>uint8_t\<close> in the source and
  natural numbers here: every cell index is checked against the array, and an array of
  \<^verbatim>\<open>nodes_capacity\<close> cells has at most 255 of them, so no counter can pass 255
  before a fault is returned.
\<close>

record search_locals =
  buffer :: "GOFSM_Node_Index_t list"
  index_planned :: nat
  planned_length :: nat
  visited_length :: nat

datatype scan = Fault fault | Return ptr search_locals | Next search_locals

text \<open>The loop over \<open>k\<close> (lines 38 to 44): is \<open>prev_node\<close> among the first
  \<open>visited_length\<close> cells?\<close>

fun is_visited :: "GOFSM_Node_Index_t list \<Rightarrow> GOFSM_Node_Index_t \<Rightarrow> nat list \<Rightarrow> fault + bool" where
  "is_visited visited prev_node [] = Inr False"
| "is_visited visited prev_node (k # ks) =
     (if k < length visited then
        (if visited ! k = prev_node then Inr True else is_visited visited prev_node ks)
      else Inl Buffer_Overrun)"

text \<open>The loop over \<open>j\<close> (lines 27 to 52) for one frontier node; \<open>planned\<close> is the offset
  of the pointer \<^verbatim>\<open>planned\<close> in the buffer.\<close>

fun scan_transitions ::
  "'w store \<Rightarrow> GOFSM_t \<Rightarrow> nat \<Rightarrow> GOFSM_Node_Index_t \<Rightarrow> nat list \<Rightarrow> search_locals \<Rightarrow> scan" where
  "scan_transitions h g planned node [] s = Next s"
| "scan_transitions h g planned node (j # js) s =
     (if j < length (transitions g) then
        (case deref h (transitions g ! j) of
           None \<Rightarrow> Fault Invalid_Pointer
         | Some transition \<Rightarrow>
             if destination_node_index transition = node then
               (if state transition = GOFSM_Transition_State_Available then
                  (let prev_node = source_node_index transition in
                   if prev_node = current_node_index g then Return (transitions g ! j) s
                   else
                     (case is_visited (buffer s) prev_node [0..<visited_length s] of
                        Inl f \<Rightarrow> Fault f
                      | Inr True \<Rightarrow> scan_transitions h g planned node js s
                      | Inr False \<Rightarrow>
                          if planned + planned_length s < length (buffer s) then
                            scan_transitions h g planned node js
                              (s\<lparr>buffer := (buffer s)[planned + planned_length s := prev_node],
                                 planned_length := planned_length s + 1,
                                 visited_length := visited_length s + 1\<rparr>)
                          else Fault Buffer_Overrun))
                else scan_transitions h g planned node js s)
             else scan_transitions h g planned node js s)
      else Fault Array_Overrun)"

text \<open>The loop over \<open>i\<close> (lines 23 to 53) for one layer; \<open>working\<close> is the offset of the
  pointer \<^verbatim>\<open>working\<close>.\<close>

fun scan_nodes ::
  "'w store \<Rightarrow> GOFSM_t \<Rightarrow> nat \<Rightarrow> nat \<Rightarrow> nat list \<Rightarrow> search_locals \<Rightarrow> scan" where
  "scan_nodes h g working planned [] s = Next s"
| "scan_nodes h g working planned (i # rest) s =
     (if working + i < length (buffer s) then
        (case scan_transitions h g planned (buffer s ! (working + i))
                [0..<unat (transitions_count g)] s of
           Next s' \<Rightarrow> scan_nodes h g working planned rest s'
         | r \<Rightarrow> r)
      else Fault Buffer_Overrun)"

text \<open>The \<^verbatim>\<open>while\<close> loop (lines 12 to 54), one layer per iteration. \<open>Next\<close> is the loop
  left with \<open>planned_length = 0\<close>.\<close>

function search_layers :: "'w store \<Rightarrow> GOFSM_t \<Rightarrow> search_locals \<Rightarrow> scan" where
  "search_layers h g s =
     (if planned_length s = 0 then Next s
      else
        (case scan_nodes h g (index_planned s) (index_planned s + planned_length s)
                [0..<planned_length s]
                (s\<lparr>planned_length := 0,
                   index_planned := index_planned s + planned_length s\<rparr>) of
           Next s' \<Rightarrow> search_layers h g s'
         | r \<Rightarrow> r))"
  by pat_completeness auto
termination
proof (relation "measure (\<lambda>(h, g, s). length (buffer s) - index_planned s)")
  show "wf (measure (\<lambda>(h, g, s). length (buffer s) - index_planned s))"
    by simp
next
  fix h :: "'w store" and g :: GOFSM_t and s s' :: search_locals
  assume pos: "planned_length s \<noteq> 0"
    and nxt: "scan_nodes h g (index_planned s) (index_planned s + planned_length s)
                [0..<planned_length s]
                (s\<lparr>planned_length := 0,
                   index_planned := index_planned s + planned_length s\<rparr>) = Next s'"
  have tr: "length (buffer b) = length (buffer a) \<and> index_planned b = index_planned a"
    if "scan_transitions h g planned node js a = Next b" for planned node js a b
    using that
    by (induction js arbitrary: a)
      (auto split: if_splits option.splits sum.splits bool.splits simp: Let_def)
  have nd: "length (buffer b) = length (buffer a) \<and> index_planned b = index_planned a"
    if "scan_nodes h g working planned ns a = Next b" for working planned ns a b
    using that
    by (induction ns arbitrary: a) (auto split: if_splits scan.splits dest!: tr)
  from pos have "[0..<planned_length s] = 0 # [1..<planned_length s]"
    by (simp add: upt_conv_Cons)
  with nxt have "index_planned s < length (buffer s)"
    by (auto split: if_splits)
  moreover from nd [OF nxt] have "length (buffer s') = length (buffer s)"
    and "index_planned s' = index_planned s + planned_length s"
    by auto
  ultimately show "((h, g, s'), (h, g, s))
      \<in> measure (\<lambda>(h, g, s). length (buffer s) - index_planned s)"
    using pos by simp
qed

declare search_layers.simps [simp del]

text \<open>The whole function, with its locals at the return; the C function returns the
  pointer and leaves the buffer written.\<close>

definition GOFSM_SearchNextStep_locals :: "'w store \<Rightarrow> GOFSM_t \<Rightarrow> fault + (ptr \<times> search_locals)" where
  "GOFSM_SearchNextStep_locals h g =
     (if 0 < length (alg_nodes_buffer g) then
        (case search_layers h g
                \<lparr>buffer = (alg_nodes_buffer g)[0 := target_node_index g],
                 index_planned = 0, planned_length = 1, visited_length = 1\<rparr> of
           Fault f \<Rightarrow> Inl f
         | Return transition s \<Rightarrow> Inr (transition, s)
         | Next s \<Rightarrow> Inr (NULL, s))
      else Inl Buffer_Overrun)"

definition GOFSM_SearchNextStep :: "'w store \<Rightarrow> GOFSM_t \<Rightarrow> fault + (ptr \<times> GOFSM_Node_Index_t list)" where
  "GOFSM_SearchNextStep h g =
     (case GOFSM_SearchNextStep_locals h g of
        Inl f \<Rightarrow> Inl f
      | Inr (transition, s) \<Rightarrow> Inr (transition, buffer s))"

section \<open>Initialisation and teardown\<close>

text \<open>The loop of \<^verbatim>\<open>GOFSM_InitStatic\<close> (lines 81 to 82).\<close>

fun zero_transitions :: "ptr list \<Rightarrow> nat list \<Rightarrow> fault + ptr list" where
  "zero_transitions ts [] = Inr ts"
| "zero_transitions ts (i # rest) =
     (if i < length ts then zero_transitions (ts[i := NULL]) rest else Inl Array_Overrun)"

definition GOFSM_InitStatic :: "GOFSM_t \<Rightarrow> fault + GOFSM_t" where
  "GOFSM_InitStatic g =
     (case zero_transitions (transitions g) [0..<unat (transitions_capacity g)] of
        Inl f \<Rightarrow> Inl f
      | Inr ts \<Rightarrow>
          Inr (g\<lparr>current_node_index := 0,
                 transitions_count := 0,
                 transition_current := NULL,
                 transitions := ts,
                 is_target_change := 1,
                 is_transition_failure := 0,
                 is_graph_reconfigured := 1\<rparr>))"

text \<open>
  \<^verbatim>\<open>GOFSM_Init\<close> allocates the two arrays. The cells \<^verbatim>\<open>malloc\<close> hands out hold
  anything: \<open>mem_t\<close> and \<open>mem_n\<close> give their contents. A failing \<^verbatim>\<open>malloc\<close> is not
  modelled. After \<^verbatim>\<open>GOFSM_Deinit\<close> has freed them, no cell of either array is left.
\<close>

definition GOFSM_Init ::
  "GOFSM_t \<Rightarrow> uint8_t \<Rightarrow> uint8_t \<Rightarrow> (nat \<Rightarrow> ptr) \<Rightarrow> (nat \<Rightarrow> GOFSM_Node_Index_t) \<Rightarrow> fault + GOFSM_t" where
  "GOFSM_Init g transitions_capacity' nodes_capacity' mem_t mem_n =
     GOFSM_InitStatic
       (g\<lparr>is_dyn := 1,
          transitions_capacity := transitions_capacity',
          nodes_capacity := nodes_capacity',
          transitions := map mem_t [0..<unat transitions_capacity'],
          alg_nodes_buffer := map mem_n [0..<unat nodes_capacity']\<rparr>)"

definition GOFSM_Deinit :: "GOFSM_t \<Rightarrow> GOFSM_t" where
  "GOFSM_Deinit g =
     (if is_dyn g = 0 then g else g\<lparr>transitions := [], alg_nodes_buffer := []\<rparr>)"

section \<open>Transitions and the registry\<close>

definition GOFSM_Transition_Init ::
  "'w store \<Rightarrow> ptr \<Rightarrow> GOFSM_Node_Index_t \<Rightarrow> GOFSM_Node_Index_t \<Rightarrow>
   (ptr \<Rightarrow> 'w \<Rightarrow> GOFSM_Transition_Result_t \<times> 'w) option \<Rightarrow> fault + 'w store" where
  "GOFSM_Transition_Init h transition source_node_index' destination_node_index' function' =
     (case transition of
        NULL \<Rightarrow> Inl Invalid_Pointer
      | Object a \<Rightarrow>
          Inr (h(a \<mapsto> \<lparr>source_node_index = source_node_index',
                        destination_node_index = destination_node_index',
                        function_ptr = function',
                        state = GOFSM_Transition_State_Available\<rparr>)))"

definition GOFSM_Transition_SetState ::
  "'w store \<Rightarrow> GOFSM_t \<Rightarrow> ptr \<Rightarrow> GOFSM_Transition_State_t \<Rightarrow> fault + ('w store \<times> GOFSM_t)" where
  "GOFSM_Transition_SetState h g transition state' =
     (case transition of
        NULL \<Rightarrow> Inl Invalid_Pointer
      | Object a \<Rightarrow>
          (case h a of
             None \<Rightarrow> Inl Invalid_Pointer
           | Some t \<Rightarrow> Inr (h(a \<mapsto> t\<lparr>state := state'\<rparr>), g\<lparr>is_graph_reconfigured := 1\<rparr>)))"

definition GOFSM_AddTransition :: "GOFSM_t \<Rightarrow> ptr \<Rightarrow> fault + (GOFSM_Error_t \<times> GOFSM_t)" where
  "GOFSM_AddTransition g transition =
     (if transitions_count g = transitions_capacity g then
        Inr (GOFSM_Error_OwerstackTransitions, g)
      else if unat (transitions_count g) < length (transitions g) then
        Inr (GOFSM_Error_No,
             g\<lparr>transitions := (transitions g)[unat (transitions_count g) := transition],
               transitions_count := transitions_count g + 1,
               is_graph_reconfigured := 1\<rparr>)
      else Inl Array_Overrun)"

text \<open>The loop of \<^verbatim>\<open>GOFSM_RemoveTransition\<close> (lines 116 to 117): the first index that
  holds the pointer.\<close>

fun find_transition :: "ptr list \<Rightarrow> ptr \<Rightarrow> nat list \<Rightarrow> fault + nat option" where
  "find_transition ts transition [] = Inr None"
| "find_transition ts transition (i # rest) =
     (if i < length ts then
        (if ts ! i = transition then Inr (Some i) else find_transition ts transition rest)
      else Inl Array_Overrun)"

text \<open>\<^verbatim>\<open>memmove(transitions+i, transitions+i+1, remaining * sizeof(...))\<close>: the
  \<open>remaining\<close> cells after cell \<open>i\<close> move one cell down, the others stay.\<close>

definition memmove_down :: "ptr list \<Rightarrow> nat \<Rightarrow> nat \<Rightarrow> ptr list" where
  "memmove_down ts i remaining = take i ts @ take remaining (drop (i + 1) ts) @ drop (i + remaining) ts"

definition GOFSM_RemoveTransition :: "GOFSM_t \<Rightarrow> ptr \<Rightarrow> fault + (GOFSM_Error_t \<times> GOFSM_t)" where
  "GOFSM_RemoveTransition g transition =
     (case find_transition (transitions g) transition [0..<unat (transitions_count g)] of
        Inl f \<Rightarrow> Inl f
      | Inr None \<Rightarrow> Inr (GOFSM_Error_NotRegisteredTransition, g)
      | Inr (Some i) \<Rightarrow>
          (let remaining = unat (transitions_count g) - i - 1 in
           if i + 1 + remaining \<le> length (transitions g) then
             Inr (GOFSM_Error_No,
                  g\<lparr>transitions := memmove_down (transitions g) i remaining,
                    transitions_count := transitions_count g - 1\<rparr>)
           else Inl Array_Overrun))"

definition GOFSM_SetCurrent :: "GOFSM_t \<Rightarrow> GOFSM_Node_Index_t \<Rightarrow> GOFSM_t" where
  "GOFSM_SetCurrent g node_index = g\<lparr>current_node_index := node_index, is_target_change := 1\<rparr>"

definition GOFSM_SetTarget :: "GOFSM_t \<Rightarrow> GOFSM_Node_Index_t \<Rightarrow> GOFSM_t" where
  "GOFSM_SetTarget g node_index = g\<lparr>target_node_index := node_index, is_target_change := 1\<rparr>"

section \<open>GOFSM_OnTick\<close>

text \<open>
  A tick returns \<^verbatim>\<open>void\<close>. What it does beyond the new engine state and the new world
  is recorded as a list of events: \<open>Searched\<close> when \<^verbatim>\<open>GOFSM_SearchNextStep\<close> was called,
  \<open>Attempted p\<close> when line 155 was reached with the transition at \<open>p\<close>.

  \<open>GOFSM_OnTick_replan\<close> is lines 142 to 147, \<open>GOFSM_OnTick_attempt\<close> lines 148 to 162.
  The three flags hold 0 or 1; \<^verbatim>\<open>!result\<close> is 1 for \<^verbatim>\<open>GOFSM_Transition_Result_Failure\<close>.
\<close>

datatype event = Searched | Attempted ptr

definition GOFSM_OnTick_replan :: "'w store \<Rightarrow> GOFSM_t \<Rightarrow> fault + (GOFSM_t \<times> event list)" where
  "GOFSM_OnTick_replan h g =
     (if is_transition_failure g = 0 \<or> is_target_change g \<noteq> 0 \<or> is_graph_reconfigured g \<noteq> 0 then
        (case GOFSM_SearchNextStep h g of
           Inl f \<Rightarrow> Inl f
         | Inr (transition, buf) \<Rightarrow>
             Inr (g\<lparr>alg_nodes_buffer := buf,
                    transition_current := transition,
                    is_target_change := 0,
                    is_graph_reconfigured := 0\<rparr>, [Searched]))
      else Inr (g, []))"

definition GOFSM_OnTick_attempt ::
  "'w store \<Rightarrow> GOFSM_t \<Rightarrow> 'w \<Rightarrow> fault + (GOFSM_t \<times> 'w \<times> event list)" where
  "GOFSM_OnTick_attempt h g w =
     (let transition = transition_current g in
      if transition = NULL then Inr (g\<lparr>is_transition_failure := 0\<rparr>, w, [])
      else
        (case deref h transition of
           None \<Rightarrow> Inl Invalid_Pointer
         | Some t \<Rightarrow>
             (let (result, w') =
                    (case function_ptr t of
                       None \<Rightarrow> (GOFSM_Transition_Result_Success, w)
                     | Some f \<Rightarrow> f transition w);
                  g' = g\<lparr>is_transition_failure :=
                          (if result = GOFSM_Transition_Result_Failure then 1 else 0)\<rparr>
              in Inr (if result = GOFSM_Transition_Result_Success
                      then g'\<lparr>current_node_index := destination_node_index t\<rparr>
                      else g',
                      w', [Attempted transition]))))"

definition GOFSM_OnTick ::
  "'w store \<Rightarrow> GOFSM_t \<Rightarrow> 'w \<Rightarrow> fault + (GOFSM_t \<times> 'w \<times> event list)" where
  "GOFSM_OnTick h g w =
     (if current_node_index g = target_node_index g then Inr (g, w, [])
      else
        (case GOFSM_OnTick_replan h g of
           Inl f \<Rightarrow> Inl f
         | Inr (g1, ev1) \<Rightarrow>
             (case GOFSM_OnTick_attempt h g1 w of
                Inl f \<Rightarrow> Inl f
              | Inr (g2, w', ev2) \<Rightarrow> Inr (g2, w', ev1 @ ev2))))"

section \<open>The public interface as a whole\<close>

text \<open>
  One value per function declared in gofsm.h, and the owner's program as a list of
  calls on one engine, its store of transitions and its world. A fault ends the run.
\<close>

datatype 'w call =
    Call_InitStatic
  | Call_Init uint8_t uint8_t "nat \<Rightarrow> ptr" "nat \<Rightarrow> GOFSM_Node_Index_t"
  | Call_Deinit
  | Call_Transition_Init ptr GOFSM_Node_Index_t GOFSM_Node_Index_t
      "(ptr \<Rightarrow> 'w \<Rightarrow> GOFSM_Transition_Result_t \<times> 'w) option"
  | Call_Transition_SetState ptr GOFSM_Transition_State_t
  | Call_AddTransition ptr
  | Call_RemoveTransition ptr
  | Call_SetCurrent GOFSM_Node_Index_t
  | Call_SetTarget GOFSM_Node_Index_t
  | Call_OnTick

type_synonym 'w machine = "'w store \<times> GOFSM_t \<times> 'w"

fun exec :: "'w call \<Rightarrow> 'w machine \<Rightarrow> fault + ('w machine \<times> event list)" where
  "exec Call_InitStatic (h, g, w) =
     (case GOFSM_InitStatic g of Inl f \<Rightarrow> Inl f | Inr g' \<Rightarrow> Inr ((h, g', w), []))"
| "exec (Call_Init tc nc mem_t mem_n) (h, g, w) =
     (case GOFSM_Init g tc nc mem_t mem_n of Inl f \<Rightarrow> Inl f | Inr g' \<Rightarrow> Inr ((h, g', w), []))"
| "exec Call_Deinit (h, g, w) = Inr ((h, GOFSM_Deinit g, w), [])"
| "exec (Call_Transition_Init p src dst f) (h, g, w) =
     (case GOFSM_Transition_Init h p src dst f of Inl e \<Rightarrow> Inl e | Inr h' \<Rightarrow> Inr ((h', g, w), []))"
| "exec (Call_Transition_SetState p st) (h, g, w) =
     (case GOFSM_Transition_SetState h g p st of
        Inl e \<Rightarrow> Inl e | Inr (h', g') \<Rightarrow> Inr ((h', g', w), []))"
| "exec (Call_AddTransition p) (h, g, w) =
     (case GOFSM_AddTransition g p of Inl e \<Rightarrow> Inl e | Inr (err, g') \<Rightarrow> Inr ((h, g', w), []))"
| "exec (Call_RemoveTransition p) (h, g, w) =
     (case GOFSM_RemoveTransition g p of Inl e \<Rightarrow> Inl e | Inr (err, g') \<Rightarrow> Inr ((h, g', w), []))"
| "exec (Call_SetCurrent n) (h, g, w) = Inr ((h, GOFSM_SetCurrent g n, w), [])"
| "exec (Call_SetTarget n) (h, g, w) = Inr ((h, GOFSM_SetTarget g n, w), [])"
| "exec Call_OnTick (h, g, w) =
     (case GOFSM_OnTick h g w of Inl e \<Rightarrow> Inl e | Inr (g', w', ev) \<Rightarrow> Inr ((h, g', w'), ev))"

fun run :: "'w call list \<Rightarrow> 'w machine \<Rightarrow> fault + ('w machine \<times> event list)" where
  "run [] m = Inr (m, [])"
| "run (c # cs) m =
     (case exec c m of
        Inl e \<Rightarrow> Inl e
      | Inr (m', ev) \<Rightarrow>
          (case run cs m' of Inl e \<Rightarrow> Inl e | Inr (m'', ev') \<Rightarrow> Inr (m'', ev @ ev')))"

section \<open>The graph of a registry\<close>

text \<open>
  The registered transitions are the first \<open>transitions_count\<close> cells of the array.
  \<open>path h g a ps b\<close>: the pointers \<open>ps\<close> are registered transitions in state
  \<^verbatim>\<open>Available\<close> that lead, one after the other, from node \<open>a\<close> to node \<open>b\<close>.
\<close>

definition registered :: "GOFSM_t \<Rightarrow> ptr list" where
  "registered g = take (unat (transitions_count g)) (transitions g)"

fun path :: "'w store \<Rightarrow> GOFSM_t \<Rightarrow> GOFSM_Node_Index_t \<Rightarrow> ptr list \<Rightarrow> GOFSM_Node_Index_t \<Rightarrow> bool" where
  "path h g a [] b = (a = b)"
| "path h g a (p # ps) b =
     (p \<in> set (registered g) \<and>
      (case deref h p of
         None \<Rightarrow> False
       | Some t \<Rightarrow>
           state t = GOFSM_Transition_State_Available \<and> source_node_index t = a \<and>
           path h g (destination_node_index t) ps b))"

section \<open>Invariants of the search\<close>

text \<open>The condition of line 34 for the transition at \<open>p\<close> while \<open>node\<close> is scanned:
  it leads to \<open>node\<close>, is \<^verbatim>\<open>Available\<close> and starts at the current node.\<close>

definition immediate_return :: "'w store \<Rightarrow> GOFSM_t \<Rightarrow> GOFSM_Node_Index_t \<Rightarrow> ptr \<Rightarrow> bool" where
  "immediate_return h g node p =
     (case deref h p of
        None \<Rightarrow> False
      | Some t \<Rightarrow> destination_node_index t = node \<and> state t = GOFSM_Transition_State_Available \<and>
          source_node_index t = current_node_index g)"

text \<open>The sources of the \<^verbatim>\<open>Available\<close> transitions into \<open>node\<close> among the registry
  cells \<open>js\<close>.\<close>

definition preds :: "'w store \<Rightarrow> GOFSM_t \<Rightarrow> GOFSM_Node_Index_t \<Rightarrow> nat list \<Rightarrow> GOFSM_Node_Index_t set" where
  "preds h g node js =
     {source_node_index t | j t. j \<in> set js \<and> deref h (transitions g ! j) = Some t \<and>
        destination_node_index t = node \<and> state t = GOFSM_Transition_State_Available}"

text \<open>The written part of the scratch buffer, and what every point of the search keeps
  true of it: the next free cell is \<open>planned + planned_length\<close>, no node is in it
  twice, and its nodes belong to a set \<open>N\<close> that fits the buffer.\<close>

definition visited :: "search_locals \<Rightarrow> GOFSM_Node_Index_t list" where
  "visited s = take (visited_length s) (buffer s)"

definition locals_ok :: "nat \<Rightarrow> GOFSM_Node_Index_t set \<Rightarrow> search_locals \<Rightarrow> bool" where
  "locals_ok planned N s \<longleftrightarrow>
     planned + planned_length s = visited_length s \<and> visited_length s \<le> length (buffer s) \<and>
     distinct (visited s) \<and> set (visited s) \<subseteq> N \<and> card N \<le> length (buffer s)"

text \<open>Later locals keep the cells written so far.\<close>

definition extends :: "search_locals \<Rightarrow> search_locals \<Rightarrow> bool" where
  "extends s s' \<longleftrightarrow>
     length (buffer s') = length (buffer s) \<and> index_planned s' = index_planned s \<and>
     visited_length s \<le> visited_length s' \<and>
     take (visited_length s) (buffer s') = take (visited_length s) (buffer s)"

text \<open>What one run of the loop over \<open>j\<close>, and of the loop over \<open>i\<close>, establishes.\<close>

definition scan_post ::
  "'w store \<Rightarrow> GOFSM_t \<Rightarrow> nat \<Rightarrow> GOFSM_Node_Index_t set \<Rightarrow> GOFSM_Node_Index_t \<Rightarrow> nat list \<Rightarrow>
   search_locals \<Rightarrow> scan \<Rightarrow> bool" where
  "scan_post h g planned N node js s r =
     (case r of
        Fault f \<Rightarrow> False
      | Return p s' \<Rightarrow> locals_ok planned N s' \<and> extends s s' \<and>
          (\<exists>pre j post. js = pre @ j # post \<and> p = transitions g ! j \<and>
             immediate_return h g node p \<and>
             (\<forall>i\<in>set pre. \<not> immediate_return h g node (transitions g ! i)) \<and>
             set (visited s') = set (visited s) \<union> preds h g node pre)
      | Next s' \<Rightarrow> locals_ok planned N s' \<and> extends s s' \<and>
          (\<forall>i\<in>set js. \<not> immediate_return h g node (transitions g ! i)) \<and>
          set (visited s') = set (visited s) \<union> preds h g node js)"

definition nodes_post ::
  "'w store \<Rightarrow> GOFSM_t \<Rightarrow> nat \<Rightarrow> nat \<Rightarrow> GOFSM_Node_Index_t set \<Rightarrow> search_locals \<Rightarrow> nat list \<Rightarrow>
   search_locals \<Rightarrow> scan \<Rightarrow> bool" where
  "nodes_post h g working planned N s0 ns s r =
     (case r of
        Fault f \<Rightarrow> False
      | Return p s' \<Rightarrow> locals_ok planned N s' \<and> extends s s' \<and>
          (\<exists>pre i post jpre j jpost. ns = pre @ i # post \<and>
             [0..<unat (transitions_count g)] = jpre @ j # jpost \<and>
             p = transitions g ! j \<and>
             immediate_return h g (buffer s0 ! (working + i)) p \<and>
             (\<forall>j'\<in>set jpre. \<not> immediate_return h g (buffer s0 ! (working + i)) (transitions g ! j')) \<and>
             (\<forall>i'\<in>set pre. \<forall>j'<unat (transitions_count g).
                \<not> immediate_return h g (buffer s0 ! (working + i')) (transitions g ! j')) \<and>
             set (visited s') \<subseteq> set (visited s) \<union>
               (\<Union>i'\<in>set ns. preds h g (buffer s0 ! (working + i')) [0..<unat (transitions_count g)]))
      | Next s' \<Rightarrow> locals_ok planned N s' \<and> extends s s' \<and>
          (\<forall>i\<in>set ns. \<forall>j<unat (transitions_count g).
             \<not> immediate_return h g (buffer s0 ! (working + i)) (transitions g ! j)) \<and>
          set (visited s') = set (visited s) \<union>
            (\<Union>i\<in>set ns. preds h g (buffer s0 ! (working + i)) [0..<unat (transitions_count g)]))"

text \<open>
  The contract of the data model. The registry lies within its array and every
  registered pointer holds a transition; the scratch buffer has \<^verbatim>\<open>nodes_capacity\<close> cells
  and every source and destination node of a registered transition is below
  \<^verbatim>\<open>nodes_capacity\<close>.
\<close>

definition registry_valid :: "'w store \<Rightarrow> GOFSM_t \<Rightarrow> bool" where
  "registry_valid h g \<longleftrightarrow>
     unat (transitions_count g) \<le> length (transitions g) \<and>
     (\<forall>p\<in>set (registered g). \<exists>t. deref h p = Some t)"

definition nodes_within_capacity :: "'w store \<Rightarrow> GOFSM_t \<Rightarrow> bool" where
  "nodes_within_capacity h g \<longleftrightarrow>
     length (alg_nodes_buffer g) = unat (nodes_capacity g) \<and>
     (\<forall>p\<in>set (registered g). \<forall>t. deref h p = Some t \<longrightarrow>
        source_node_index t < nodes_capacity g \<and> destination_node_index t < nodes_capacity g)"

text \<open>The nodes with a path of fewer than \<open>d\<close> transitions to the target, the nodes with any
  path to it, and the predecessors of a node over the whole registry.\<close>

definition closer :: "'w store \<Rightarrow> GOFSM_t \<Rightarrow> nat \<Rightarrow> GOFSM_Node_Index_t set" where
  "closer h g d = {n. \<exists>ps. length ps < d \<and> path h g n ps (target_node_index g)}"

definition reach :: "'w store \<Rightarrow> GOFSM_t \<Rightarrow> GOFSM_Node_Index_t set" where
  "reach h g = {n. \<exists>ps. path h g n ps (target_node_index g)}"

definition all_preds :: "'w store \<Rightarrow> GOFSM_t \<Rightarrow> GOFSM_Node_Index_t \<Rightarrow> GOFSM_Node_Index_t set" where
  "all_preds h g m = preds h g m [0..<unat (transitions_count g)]"

text \<open>The invariant of the \<^verbatim>\<open>while\<close> loop at the start of layer \<open>d\<close>, and what the
  loop establishes.\<close>

definition layer_inv :: "'w store \<Rightarrow> GOFSM_t \<Rightarrow> nat \<Rightarrow> search_locals \<Rightarrow> bool" where
  "layer_inv h g d s \<longleftrightarrow>
     locals_ok (index_planned s) (reach h g) s \<and>
     set (visited s) = closer h g (Suc d) \<and>
     set (take (index_planned s) (buffer s)) = closer h g d \<and>
     (current_node_index g \<noteq> target_node_index g \<longrightarrow> current_node_index g \<notin> set (visited s)) \<and>
     (\<forall>k<index_planned s. \<forall>j<unat (transitions_count g).
        \<not> immediate_return h g (buffer s ! k) (transitions g ! j))"

definition layers_post :: "'w store \<Rightarrow> GOFSM_t \<Rightarrow> scan \<Rightarrow> bool" where
  "layers_post h g r =
     (case r of
        Fault f \<Rightarrow> False
      | Return p s' \<Rightarrow> locals_ok (index_planned s') (reach h g) s' \<and>
          (\<exists>k j d. k < visited_length s' \<and> j < unat (transitions_count g) \<and>
             p = transitions g ! j \<and>
             immediate_return h g (buffer s' ! k) p \<and>
             (\<forall>j'<j. \<not> immediate_return h g (buffer s' ! k) (transitions g ! j')) \<and>
             (\<forall>k'<k. \<forall>j'<unat (transitions_count g).
                \<not> immediate_return h g (buffer s' ! k') (transitions g ! j')) \<and>
             buffer s' ! k \<in> closer h g (Suc d) \<and>
             (current_node_index g \<noteq> target_node_index g \<longrightarrow>
                current_node_index g \<notin> closer h g (Suc d)))
      | Next s' \<Rightarrow> locals_ok (index_planned s') (reach h g) s' \<and>
          (current_node_index g \<noteq> target_node_index g \<longrightarrow> current_node_index g \<notin> reach h g))"

section \<open>Invariant of the failure flag\<close>

text \<open>A set failure flag comes with a cached transition.\<close>

definition failure_has_transition :: "GOFSM_t \<Rightarrow> bool" where
  "failure_has_transition g \<longleftrightarrow>
     (is_transition_failure g \<noteq> 0 \<longrightarrow> transition_current g \<noteq> NULL)"

section \<open>Concrete engines\<close>

text \<open>
  The engine of the scenarios: nodes 0, 1 and 2, transition A from 0 to 1 at address 1
  and transition B from 1 to 2 at address 2; the world counts the calls of B's action,
  which fails every time.
\<close>

definition always_fails :: "ptr \<Rightarrow> nat \<Rightarrow> GOFSM_Transition_Result_t \<times> nat" where
  "always_fails p w = (GOFSM_Transition_Result_Failure, Suc w)"

definition ex_store :: "nat store" where
  "ex_store =
     [1 \<mapsto> \<lparr>source_node_index = 0, destination_node_index = 1, function_ptr = None,
             state = GOFSM_Transition_State_Available\<rparr>,
      2 \<mapsto> \<lparr>source_node_index = 1, destination_node_index = 2, function_ptr = Some always_fails,
             state = GOFSM_Transition_State_Available\<rparr>]"

definition ex_engine :: GOFSM_t where
  "ex_engine =
     \<lparr>nodes_capacity = 3, transitions_count = 2, transitions_capacity = 2,
      transitions = [Object 1, Object 2], transition_current = NULL,
      current_node_index = 0, target_node_index = 2, alg_nodes_buffer = [0, 0, 0],
      is_target_change = 1, is_transition_failure = 0, is_graph_reconfigured = 1, is_dyn = 0\<rparr>"

definition ex_blocked_store :: "nat store" where
  "ex_blocked_store =
     [1 \<mapsto> \<lparr>source_node_index = 0, destination_node_index = 1, function_ptr = None,
             state = GOFSM_Transition_State_Available\<rparr>,
      2 \<mapsto> \<lparr>source_node_index = 1, destination_node_index = 2, function_ptr = Some always_fails,
             state = GOFSM_Transition_State_Blocked\<rparr>]"

definition ex_stuck_engine :: GOFSM_t where
  "ex_stuck_engine =
     \<lparr>nodes_capacity = 3, transitions_count = 2, transitions_capacity = 2,
      transitions = [Object 1, Object 2], transition_current = NULL,
      current_node_index = 1, target_node_index = 2, alg_nodes_buffer = [2, 0, 0],
      is_target_change = 0, is_transition_failure = 0, is_graph_reconfigured = 0, is_dyn = 0\<rparr>"

definition ex_retry_engine :: GOFSM_t where
  "ex_retry_engine =
     \<lparr>nodes_capacity = 3, transitions_count = 2, transitions_capacity = 2,
      transitions = [Object 1, Object 2], transition_current = Object 2,
      current_node_index = 1, target_node_index = 2, alg_nodes_buffer = [2, 0, 0],
      is_target_change = 0, is_transition_failure = 1, is_graph_reconfigured = 0, is_dyn = 0\<rparr>"





text \<open>The engine of the scenarios with transition A registered only, and one free
  registry cell.\<close>

definition ex_free_engine :: GOFSM_t where
  "ex_free_engine =
     \<lparr>nodes_capacity = 3, transitions_count = 1, transitions_capacity = 2,
      transitions = [Object 1, NULL], transition_current = NULL,
      current_node_index = 0, target_node_index = 2, alg_nodes_buffer = [0, 0, 0],
      is_target_change = 1, is_transition_failure = 0, is_graph_reconfigured = 0, is_dyn = 0\<rparr>"

section \<open>The tick\<close>

lemmas ex_defs = ex_store_def ex_engine_def always_fails_def

lemmas tick_defs = GOFSM_OnTick_def GOFSM_OnTick_replan_def GOFSM_OnTick_attempt_def
  GOFSM_SearchNextStep_def GOFSM_SearchNextStep_locals_def search_layers.simps deref_def

text \<open>
  C9. For every engine state whose current node equals its target node, a tick changes
  nothing: it returns the engine as it was (current and target node, registry, cached
  transition and the three flags), the world as it was, and no event, so no search was
  run and no action was invoked.
\<close>

theorem C9_idle_tick_changes_nothing:
  "current_node_index g = target_node_index g \<Longrightarrow> GOFSM_OnTick h g w = Inr (g, w, [])"
  by (simp add: GOFSM_OnTick_def)

theorem C9_idle_tick_changes_nothing_witness:
  "current_node_index (GOFSM_SetCurrent ex_engine 2) = target_node_index (GOFSM_SetCurrent ex_engine 2) \<and>
   GOFSM_OnTick ex_store (GOFSM_SetCurrent ex_engine 2) (0::nat) = Inr (GOFSM_SetCurrent ex_engine 2, 0, [])"
  using C9_idle_tick_changes_nothing [of "GOFSM_SetCurrent ex_engine 2" ex_store "0::nat"]
  by (simp add: GOFSM_SetCurrent_def ex_engine_def)

text \<open>
  C5. A tick that gets past the replanning step with a cached transition \<open>p\<close> attempts
  it. An absent action counts as success and leaves the world alone. On success the
  current node becomes the destination node of \<open>p\<close> and the failure flag is cleared; on
  failure the failure flag is set, the current node stays, and \<open>p\<close> stays cached.
\<close>

theorem C5_attempt_outcome:
  assumes "current_node_index g \<noteq> target_node_index g"
    and "GOFSM_OnTick_replan h g = Inr (g1, ev)"
    and "transition_current g1 = p" and "deref h p = Some t"
    and "(case function_ptr t of
            None \<Rightarrow> (GOFSM_Transition_Result_Success, w)
          | Some f \<Rightarrow> f p w) = (result, w')"
  shows "(function_ptr t = None \<longrightarrow> result = GOFSM_Transition_Result_Success \<and> w' = w) \<and>
         (\<exists>g2. GOFSM_OnTick h g w = Inr (g2, w', ev @ [Attempted p]) \<and>
            (result = GOFSM_Transition_Result_Success \<longrightarrow>
               current_node_index g2 = destination_node_index t \<and> is_transition_failure g2 = 0) \<and>
            (result = GOFSM_Transition_Result_Failure \<longrightarrow>
               is_transition_failure g2 = 1 \<and> current_node_index g2 = current_node_index g \<and>
               transition_current g2 = p))"
proof -
  from assms(4) have "p \<noteq> NULL"
    by (auto simp: deref_def)
  moreover from assms(2) have "current_node_index g1 = current_node_index g"
    by (auto simp: GOFSM_OnTick_replan_def split: if_splits sum.splits)
  ultimately show ?thesis
    using assms by (cases result) (auto simp: GOFSM_OnTick_def GOFSM_OnTick_attempt_def split: option.splits)
qed

theorem C5_attempt_outcome_witness:
  "current_node_index ex_engine \<noteq> target_node_index ex_engine \<and>
   GOFSM_OnTick_replan ex_store ex_engine =
     Inr (ex_engine\<lparr>alg_nodes_buffer := [2, 1, 0], transition_current := Object 1,
            is_target_change := 0, is_graph_reconfigured := 0\<rparr>, [Searched]) \<and>
   deref ex_store (Object 1) =
     Some \<lparr>source_node_index = 0, destination_node_index = 1, function_ptr = None,
             state = GOFSM_Transition_State_Available\<rparr> \<and>
   (\<exists>g2. GOFSM_OnTick ex_store ex_engine (0::nat) = Inr (g2, 0, [Searched, Attempted (Object 1)]) \<and>
      current_node_index g2 = 1 \<and> is_transition_failure g2 = 0)"
  using C5_attempt_outcome [of ex_engine ex_store
      "ex_engine\<lparr>alg_nodes_buffer := [2, 1, 0], transition_current := Object 1,
            is_target_change := 0, is_graph_reconfigured := 0\<rparr>" "[Searched]" "Object 1"
      "\<lparr>source_node_index = 0, destination_node_index = 1, function_ptr = None,
             state = GOFSM_Transition_State_Available\<rparr>" "0::nat"
      GOFSM_Transition_Result_Success "0::nat"]
  by (simp add: ex_defs GOFSM_OnTick_replan_def GOFSM_SearchNextStep_def
      GOFSM_SearchNextStep_locals_def search_layers.simps deref_def upt_conv_Cons)

text \<open>
  C2 (as amended). When current and target differ and the tick has no transition to
  attempt (it replanned and the search returned \<open>NULL\<close>, or it did not replan and
  nothing was cached), the tick returns normally, leaves the current node and the world
  unchanged, clears the failure flag, leaves \<^verbatim>\<open>transition_current\<close> \<open>NULL\<close> and
  attempts nothing. It reports nothing: \<^verbatim>\<open>GOFSM_OnTick\<close> returns \<^verbatim>\<open>void\<close>.
\<close>

theorem C2_no_transition_tick:
  assumes "current_node_index g \<noteq> target_node_index g"
    and "(is_transition_failure g = 0 \<or> is_target_change g \<noteq> 0 \<or> is_graph_reconfigured g \<noteq> 0) \<and>
           GOFSM_SearchNextStep h g = Inr (NULL, buf) \<and>
           g1 = g\<lparr>alg_nodes_buffer := buf, transition_current := NULL,
                  is_target_change := 0, is_graph_reconfigured := 0\<rparr> \<and> ev = [Searched]
         \<or> \<not> (is_transition_failure g = 0 \<or> is_target_change g \<noteq> 0 \<or> is_graph_reconfigured g \<noteq> 0) \<and>
           transition_current g = NULL \<and> g1 = g \<and> ev = []"
  shows "GOFSM_OnTick h g w = Inr (g1\<lparr>is_transition_failure := 0\<rparr>, w, ev) \<and>
         current_node_index (g1\<lparr>is_transition_failure := 0\<rparr>) = current_node_index g \<and>
         transition_current (g1\<lparr>is_transition_failure := 0\<rparr>) = NULL"
  using assms
  by (auto simp: GOFSM_OnTick_def GOFSM_OnTick_replan_def GOFSM_OnTick_attempt_def)

theorem C2_no_transition_tick_witness:
  "current_node_index ex_stuck_engine \<noteq> target_node_index ex_stuck_engine \<and>
   is_transition_failure ex_stuck_engine = 0 \<and>
   GOFSM_SearchNextStep ex_blocked_store ex_stuck_engine = Inr (NULL, [2, 0, 0]) \<and>
   GOFSM_OnTick ex_blocked_store ex_stuck_engine (0::nat) = Inr (ex_stuck_engine, 0, [Searched]) \<and>
   current_node_index ex_stuck_engine = 1"
  using C2_no_transition_tick [of ex_stuck_engine ex_blocked_store "[2, 0, 0]"
      ex_stuck_engine "[Searched]" "0::nat"]
  by (simp add: ex_blocked_store_def ex_stuck_engine_def GOFSM_SearchNextStep_def
      GOFSM_SearchNextStep_locals_def search_layers.simps deref_def upt_conv_Cons)

text \<open>
  C2 as stated fails: the condition is not reported. With B blocked, current node 1 and
  target node 2, the tick searches, finds no transition and returns the engine and the
  world exactly as they were. Nothing was written that the caller could read, and the
  function has no return value.
\<close>

theorem C2_silent_counterexample:
  "GOFSM_OnTick ex_blocked_store ex_stuck_engine (0::nat) = Inr (ex_stuck_engine, 0, [Searched])"
  by (simp add: ex_blocked_store_def ex_stuck_engine_def tick_defs upt_conv_Cons)





section \<open>The search\<close>

lemma extends_refl: "extends s s"
  by (simp add: extends_def)

lemma extends_trans:
  assumes "extends s s'" and "extends s' s''"
  shows "extends s s''"
proof -
  from assms have le: "visited_length s \<le> visited_length s'"
    and a: "take (visited_length s) (buffer s') = take (visited_length s) (buffer s)"
    and b: "take (visited_length s') (buffer s'') = take (visited_length s') (buffer s')"
    by (simp_all add: extends_def)
  have "take (visited_length s) (buffer s'') =
      take (visited_length s) (take (visited_length s') (buffer s''))"
    using le by (simp add: min.absorb1)
  also have "\<dots> = take (visited_length s) (buffer s')"
    using le by (simp add: b min.absorb1)
  finally have "take (visited_length s) (buffer s'') = take (visited_length s) (buffer s)"
    using a by simp
  with assms show ?thesis
    by (simp add: extends_def)
qed

lemma is_visited_result:
  "is_visited buf x ks = Inr b \<Longrightarrow> b = (\<exists>k\<in>set ks. k < length buf \<and> buf ! k = x)"
  by (induction ks) (auto split: if_splits)

lemma is_visited_inside:
  "\<forall>k\<in>set ks. k < length buf \<Longrightarrow> \<exists>b. is_visited buf x ks = Inr b"
  by (induction ks) auto

lemma is_visited_take:
  assumes "n \<le> length buf"
  shows "is_visited buf x [0..<n] = Inr (x \<in> set (take n buf))"
proof -
  from assms obtain b where b: "is_visited buf x [0..<n] = Inr b"
    using is_visited_inside [of "[0..<n]" buf x] by auto
  from is_visited_result [OF b] assms have "b = (x \<in> set (take n buf))"
    by (auto simp: in_set_conv_nth)
  with b show ?thesis by simp
qed

lemma push_visited:
  assumes "n < length buf"
  shows "take (Suc n) (buf[n := x]) = take n buf @ [x]"
  using assms by (simp add: take_Suc_conv_app_nth)

lemma locals_ok_push:
  assumes ok: "locals_ok planned N s" and new: "x \<notin> set (visited s)" and "x \<in> N"
  shows "planned + planned_length s < length (buffer s)"
    and "locals_ok planned N
           (s\<lparr>buffer := (buffer s)[planned + planned_length s := x],
              planned_length := planned_length s + 1,
              visited_length := visited_length s + 1\<rparr>)"
    and "visited (s\<lparr>buffer := (buffer s)[planned + planned_length s := x],
              planned_length := planned_length s + 1,
              visited_length := visited_length s + 1\<rparr>) = visited s @ [x]"
    and "extends s (s\<lparr>buffer := (buffer s)[planned + planned_length s := x],
              planned_length := planned_length s + 1,
              visited_length := visited_length s + 1\<rparr>)"
proof -
  from ok have eq: "planned + planned_length s = visited_length s"
    and le: "visited_length s \<le> length (buffer s)"
    and d: "distinct (visited s)" and sub: "set (visited s) \<subseteq> N"
    and c: "card N \<le> length (buffer s)"
    by (auto simp: locals_ok_def)
  have "length (visited s) = visited_length s"
    using le by (simp add: visited_def)
  with d have "card (set (visited s)) = visited_length s"
    by (simp add: distinct_card)
  moreover have "card (insert x (set (visited s))) \<le> card N"
    using sub \<open>x \<in> N\<close> by (intro card_mono) auto
  ultimately have "Suc (visited_length s) \<le> card N"
    using new by simp
  with c have lt: "visited_length s < length (buffer s)" by simp
  with eq show "planned + planned_length s < length (buffer s)" by simp
  show v: "visited (s\<lparr>buffer := (buffer s)[planned + planned_length s := x],
              planned_length := planned_length s + 1,
              visited_length := visited_length s + 1\<rparr>) = visited s @ [x]"
    using lt eq by (simp add: visited_def push_visited)
  show "locals_ok planned N
           (s\<lparr>buffer := (buffer s)[planned + planned_length s := x],
              planned_length := planned_length s + 1,
              visited_length := visited_length s + 1\<rparr>)"
  proof -
    have "distinct (visited s @ [x])" using d new by simp
    moreover have "set (visited s @ [x]) \<subseteq> N" using sub \<open>x \<in> N\<close> by simp
    ultimately show ?thesis
      unfolding locals_ok_def v using eq lt c by simp
  qed
  show "extends s (s\<lparr>buffer := (buffer s)[planned + planned_length s := x],
              planned_length := planned_length s + 1,
              visited_length := visited_length s + 1\<rparr>)"
    using eq by (simp add: extends_def)
qed

lemma preds_Nil: "preds h g node [] = {}"
  by (simp add: preds_def)

lemma preds_Cons:
  assumes "deref h (transitions g ! j) = Some t"
  shows "preds h g node (j # js) =
     (if destination_node_index t = node \<and> state t = GOFSM_Transition_State_Available
      then insert (source_node_index t) (preds h g node js) else preds h g node js)"
  using assms by (auto simp: preds_def)

lemma scan_post_Cons:
  assumes t: "deref h (transitions g ! j) = Some t"
    and miss: "\<not> immediate_return h g node (transitions g ! j)"
    and post: "scan_post h g planned N node js s1 r"
    and ext: "extends s s1"
    and vis: "set (visited s1) \<union> preds h g node js = set (visited s) \<union> preds h g node (j # js)"
    and vis': "\<And>pre. set (visited s1) \<union> preds h g node pre = set (visited s) \<union> preds h g node (j # pre)"
  shows "scan_post h g planned N node (j # js) s r"
proof (cases r)
  case (Fault f)
  with post show ?thesis by (simp add: scan_post_def)
next
  case (Return p s')
  with post obtain pre k post' where ok: "locals_ok planned N s'" and e: "extends s1 s'"
    and js: "js = pre @ k # post'" and p: "p = transitions g ! k"
    and hit: "immediate_return h g node p"
    and first: "\<forall>i\<in>set pre. \<not> immediate_return h g node (transitions g ! i)"
    and v: "set (visited s') = set (visited s1) \<union> preds h g node pre"
    by (auto simp: scan_post_def)
  have "j # js = (j # pre) @ k # post'" using js by simp
  moreover have "\<forall>i\<in>set (j # pre). \<not> immediate_return h g node (transitions g ! i)"
    using first miss by simp
  moreover have "set (visited s') = set (visited s) \<union> preds h g node (j # pre)"
    using v vis' by simp
  ultimately have "\<exists>pre k post'. j # js = pre @ k # post' \<and> p = transitions g ! k \<and>
             immediate_return h g node p \<and>
             (\<forall>i\<in>set pre. \<not> immediate_return h g node (transitions g ! i)) \<and>
             set (visited s') = set (visited s) \<union> preds h g node pre"
    using p hit by blast
  with ok extends_trans [OF ext e] Return show ?thesis
    by (simp add: scan_post_def)
next
  case (Next s')
  with post have ok: "locals_ok planned N s'" and e: "extends s1 s'"
    and none: "\<forall>i\<in>set js. \<not> immediate_return h g node (transitions g ! i)"
    and v: "set (visited s') = set (visited s1) \<union> preds h g node js"
    by (auto simp: scan_post_def)
  from none miss have "\<forall>i\<in>set (j # js). \<not> immediate_return h g node (transitions g ! i)"
    by simp
  moreover from v vis have "set (visited s') = set (visited s) \<union> preds h g node (j # js)"
    by simp
  ultimately show ?thesis
    using ok extends_trans [OF ext e] Next by (simp add: scan_post_def)
qed

lemma scan_transitions_summary:
  assumes "locals_ok planned N s"
    and "\<forall>j\<in>set js. j < length (transitions g) \<and> (\<exists>t. deref h (transitions g ! j) = Some t)"
    and "preds h g node js \<subseteq> N"
  shows "scan_post h g planned N node js s (scan_transitions h g planned node js s)"
  using assms
proof (induction js arbitrary: s)
  case Nil
  then show ?case
    by (simp add: scan_post_def extends_refl preds_Nil)
next
  case (Cons j js)
  from Cons.prems(2) obtain t where j: "j < length (transitions g)"
    and t: "deref h (transitions g ! j) = Some t"
    and valid: "\<forall>j\<in>set js. j < length (transitions g) \<and> (\<exists>t. deref h (transitions g ! j) = Some t)"
    by auto
  have sub: "preds h g node js \<subseteq> N"
    using Cons.prems(3) by (auto simp: preds_Cons [OF t] split: if_splits)
  let ?into = "destination_node_index t = node \<and> state t = GOFSM_Transition_State_Available"
  show ?case
  proof (cases ?into)
    case False
    then have step: "scan_transitions h g planned node (j # js) s = scan_transitions h g planned node js s"
      using j t by auto
    have miss: "\<not> immediate_return h g node (transitions g ! j)"
      using False t by (auto simp: immediate_return_def)
    have p: "preds h g node (j # pre) = preds h g node pre" for pre
      using False by (auto simp: preds_Cons [OF t])
    show ?thesis
      unfolding step
      by (rule scan_post_Cons [OF t miss Cons.IH [OF Cons.prems(1) valid sub] extends_refl])
        (simp_all add: p)
  next
    case True
    then have p: "preds h g node (j # pre) = insert (source_node_index t) (preds h g node pre)" for pre
      by (simp add: preds_Cons [OF t])
    show ?thesis
    proof (cases "source_node_index t = current_node_index g")
      case cur: True
      then have step: "scan_transitions h g planned node (j # js) s = Return (transitions g ! j) s"
        using j t True by simp
      have "immediate_return h g node (transitions g ! j)"
        using True cur t by (simp add: immediate_return_def)
      then have "\<exists>pre k post. j # js = pre @ k # post \<and> transitions g ! j = transitions g ! k \<and>
             immediate_return h g node (transitions g ! j) \<and>
             (\<forall>i\<in>set pre. \<not> immediate_return h g node (transitions g ! i)) \<and>
             set (visited s) = set (visited s) \<union> preds h g node pre"
        by (intro exI [of _ "[]"] exI [of _ j] exI [of _ js]) (simp add: preds_Nil)
      then show ?thesis
        unfolding step using Cons.prems(1) by (simp add: scan_post_def extends_refl)
    next
      case other: False
      then have miss: "\<not> immediate_return h g node (transitions g ! j)"
        using t by (simp add: immediate_return_def)
      from Cons.prems(1) have le: "visited_length s \<le> length (buffer s)"
        by (simp add: locals_ok_def)
      note vis = is_visited_take [OF le, of "source_node_index t"]
      show ?thesis
      proof (cases "source_node_index t \<in> set (visited s)")
        case seen: True
        then have step: "scan_transitions h g planned node (j # js) s = scan_transitions h g planned node js s"
          using j t True other vis by (simp add: visited_def)
        show ?thesis
          unfolding step
          by (rule scan_post_Cons [OF t miss Cons.IH [OF Cons.prems(1) valid sub] extends_refl])
            (use seen in \<open>auto simp: p\<close>)
      next
        case new: False
        let ?s1 = "s\<lparr>buffer := (buffer s)[planned + planned_length s := source_node_index t],
              planned_length := planned_length s + 1,
              visited_length := visited_length s + 1\<rparr>"
        have inN: "source_node_index t \<in> N"
          using Cons.prems(3) by (simp add: p)
        note push = locals_ok_push [OF Cons.prems(1) new inN]
        have step: "scan_transitions h g planned node (j # js) s = scan_transitions h g planned node js ?s1"
          using j t True other vis new push(1) by (simp add: visited_def)
        show ?thesis
          unfolding step
          by (rule scan_post_Cons [OF t miss Cons.IH [OF push(2) valid sub] push(4)])
            (unfold push(3), simp_all add: p)
      qed
    qed
  qed
qed

lemma preds_mono: "set pre \<subseteq> set js \<Longrightarrow> preds h g node pre \<subseteq> preds h g node js"
  by (auto simp: preds_def)

lemma extends_nth:
  assumes "extends s0 s" and "k < visited_length s0"
  shows "buffer s ! k = buffer s0 ! k"
proof -
  from assms(1) have "take (visited_length s0) (buffer s) = take (visited_length s0) (buffer s0)"
    by (simp add: extends_def)
  then have "take (visited_length s0) (buffer s) ! k = take (visited_length s0) (buffer s0) ! k"
    by simp
  with assms(2) show ?thesis by simp
qed

lemma scan_nodes_summary:
  assumes "locals_ok planned N s" and "extends s0 s"
    and "\<forall>i\<in>set ns. working + i < visited_length s0"
    and "\<forall>j<unat (transitions_count g). j < length (transitions g) \<and>
           (\<exists>t. deref h (transitions g ! j) = Some t)"
    and "\<forall>i\<in>set ns. preds h g (buffer s0 ! (working + i)) [0..<unat (transitions_count g)] \<subseteq> N"
  shows "nodes_post h g working planned N s0 ns s (scan_nodes h g working planned ns s)"
  using assms(1,2,3,5)
proof (induction ns arbitrary: s)
  case Nil
  then show ?case by (simp add: nodes_post_def extends_refl)
next
  case (Cons i rest)
  let ?n = "unat (transitions_count g)"
  let ?node = "buffer s0 ! (working + i)"
  let ?P = "\<lambda>i. preds h g (buffer s0 ! (working + i)) [0..<?n]"
  from Cons.prems(3) have i: "working + i < visited_length s0" by simp
  from Cons.prems(2) have "visited_length s0 \<le> visited_length s"
    by (simp add: extends_def)
  moreover from Cons.prems(1) have "visited_length s \<le> length (buffer s)"
    by (simp add: locals_ok_def)
  ultimately have inside: "working + i < length (buffer s)"
    using i by simp
  have node: "buffer s ! (working + i) = ?node"
    by (rule extends_nth [OF Cons.prems(2) i])
  have valid: "\<forall>j\<in>set [0..<?n]. j < length (transitions g) \<and>
      (\<exists>t. deref h (transitions g ! j) = Some t)"
    using assms(4) by simp
  have sub: "?P i \<subseteq> N" using Cons.prems(4) by simp
  note tr = scan_transitions_summary [OF Cons.prems(1) valid sub]
  show ?case
  proof (cases "scan_transitions h g planned ?node [0..<?n] s")
    case (Fault f)
    with tr show ?thesis by (simp add: scan_post_def)
  next
    case (Return p s')
    with tr obtain jpre j jpost where ok: "locals_ok planned N s'" and e: "extends s s'"
      and js: "[0..<?n] = jpre @ j # jpost" and p: "p = transitions g ! j"
      and hit: "immediate_return h g ?node p"
      and first: "\<forall>j'\<in>set jpre. \<not> immediate_return h g ?node (transitions g ! j')"
      and v: "set (visited s') = set (visited s) \<union> preds h g ?node jpre"
      by (auto simp: scan_post_def)
    have "set jpre \<subseteq> set [0..<?n]" using js by (metis set_append Un_upper1)
    then have "preds h g ?node jpre \<subseteq> ?P i" by (rule preds_mono)
    with v have v': "set (visited s') \<subseteq> set (visited s) \<union> (\<Union>i'\<in>set (i # rest). ?P i')"
      by auto
    have "\<exists>pre k post jpre j jpost. i # rest = pre @ k # post \<and>
             [0..<?n] = jpre @ j # jpost \<and> p = transitions g ! j \<and>
             immediate_return h g (buffer s0 ! (working + k)) p \<and>
             (\<forall>j'\<in>set jpre. \<not> immediate_return h g (buffer s0 ! (working + k)) (transitions g ! j')) \<and>
             (\<forall>i'\<in>set pre. \<forall>j'<?n.
                \<not> immediate_return h g (buffer s0 ! (working + i')) (transitions g ! j')) \<and>
             set (visited s') \<subseteq> set (visited s) \<union> (\<Union>i'\<in>set (i # rest). ?P i')"
      using js p hit first v'
      by (intro exI [of _ "[]"] exI [of _ i] exI [of _ rest] exI [of _ jpre] exI [of _ j]
          exI [of _ jpost]) simp
    with ok e Return inside node show ?thesis
      by (simp add: nodes_post_def)
  next
    case (Next s1)
    with tr have ok: "locals_ok planned N s1" and e: "extends s s1"
      and none: "\<forall>j\<in>set [0..<?n]. \<not> immediate_return h g ?node (transitions g ! j)"
      and v: "set (visited s1) = set (visited s) \<union> ?P i"
      by (auto simp: scan_post_def)
    have e0: "extends s0 s1" by (rule extends_trans [OF Cons.prems(2) e])
    have rest: "\<forall>i\<in>set rest. working + i < visited_length s0"
      "\<forall>i\<in>set rest. ?P i \<subseteq> N"
      using Cons.prems(3,4) by simp_all
    note ih = Cons.IH [OF ok e0 rest]
    have step: "scan_nodes h g working planned (i # rest) s = scan_nodes h g working planned rest s1"
      using Next inside node by simp
    show ?thesis
    proof (cases "scan_nodes h g working planned rest s1")
      case (Fault f)
      with ih show ?thesis by (simp add: nodes_post_def)
    next
      case r: (Return p s')
      with ih obtain pre k post jpre j jpost where ok': "locals_ok planned N s'"
        and e': "extends s1 s'" and ns: "rest = pre @ k # post"
        and js: "[0..<?n] = jpre @ j # jpost" and p: "p = transitions g ! j"
        and hit: "immediate_return h g (buffer s0 ! (working + k)) p"
        and first: "\<forall>j'\<in>set jpre. \<not> immediate_return h g (buffer s0 ! (working + k)) (transitions g ! j')"
        and before: "\<forall>i'\<in>set pre. \<forall>j'<?n.
                \<not> immediate_return h g (buffer s0 ! (working + i')) (transitions g ! j')"
        and v': "set (visited s') \<subseteq> set (visited s1) \<union> (\<Union>i'\<in>set rest. ?P i')"
        by (auto simp: nodes_post_def)
      have "i # rest = (i # pre) @ k # post" using ns by simp
      moreover have "\<forall>i'\<in>set (i # pre). \<forall>j'<?n.
                \<not> immediate_return h g (buffer s0 ! (working + i')) (transitions g ! j')"
        using before none by simp
      moreover have "set (visited s') \<subseteq> set (visited s) \<union> (\<Union>i'\<in>set (i # rest). ?P i')"
        using v v' by auto
      ultimately have "\<exists>pre k post jpre j jpost. i # rest = pre @ k # post \<and>
             [0..<?n] = jpre @ j # jpost \<and> p = transitions g ! j \<and>
             immediate_return h g (buffer s0 ! (working + k)) p \<and>
             (\<forall>j'\<in>set jpre. \<not> immediate_return h g (buffer s0 ! (working + k)) (transitions g ! j')) \<and>
             (\<forall>i'\<in>set pre. \<forall>j'<?n.
                \<not> immediate_return h g (buffer s0 ! (working + i')) (transitions g ! j')) \<and>
             set (visited s') \<subseteq> set (visited s) \<union> (\<Union>i'\<in>set (i # rest). ?P i')"
        using js p hit first by blast
      with ok' extends_trans [OF e e'] r show ?thesis
        unfolding step by (simp add: nodes_post_def)
    next
      case n: (Next s')
      with ih have ok': "locals_ok planned N s'" and e': "extends s1 s'"
        and none': "\<forall>i\<in>set rest. \<forall>j<?n.
             \<not> immediate_return h g (buffer s0 ! (working + i)) (transitions g ! j)"
        and v': "set (visited s') = set (visited s1) \<union> (\<Union>i\<in>set rest. ?P i)"
        by (auto simp: nodes_post_def)
      have "\<forall>i\<in>set (i # rest). \<forall>j<?n.
             \<not> immediate_return h g (buffer s0 ! (working + i)) (transitions g ! j)"
        using none none' by simp
      moreover have "set (visited s') = set (visited s) \<union> (\<Union>i\<in>set (i # rest). ?P i)"
        using v v' by auto
      ultimately show ?thesis
        unfolding step using ok' extends_trans [OF e e'] n by (simp add: nodes_post_def)
    qed
  qed
qed

lemma registered_nth:
  assumes "unat (transitions_count g) \<le> length (transitions g)"
  shows "p \<in> set (registered g) \<longleftrightarrow> (\<exists>j<unat (transitions_count g). p = transitions g ! j)"
  using assms by (auto simp: registered_def in_set_conv_nth)

lemma all_preds_iff:
  assumes "unat (transitions_count g) \<le> length (transitions g)"
  shows "x \<in> all_preds h g m \<longleftrightarrow>
     (\<exists>p\<in>set (registered g). \<exists>t. deref h p = Some t \<and> destination_node_index t = m \<and>
        state t = GOFSM_Transition_State_Available \<and> source_node_index t = x)"
proof -
  have "x \<in> all_preds h g m \<longleftrightarrow>
     (\<exists>j<unat (transitions_count g). \<exists>t. deref h (transitions g ! j) = Some t \<and>
        destination_node_index t = m \<and> state t = GOFSM_Transition_State_Available \<and>
        source_node_index t = x)"
    by (auto simp: all_preds_def preds_def)
  also have "\<dots> \<longleftrightarrow> (\<exists>p. (\<exists>j<unat (transitions_count g). p = transitions g ! j) \<and>
      (\<exists>t. deref h p = Some t \<and> destination_node_index t = m \<and>
        state t = GOFSM_Transition_State_Available \<and> source_node_index t = x))"
    by blast
  finally show ?thesis
    unfolding registered_nth [OF assms, symmetric] by blast
qed

lemma closer_0: "closer h g 0 = {}"
  by (simp add: closer_def)

lemma closer_mono: "closer h g d \<subseteq> closer h g (Suc d)"
  unfolding closer_def by (blast intro: less_SucI)

lemma closer_reach: "closer h g d \<subseteq> reach h g"
  by (auto simp: closer_def reach_def)

lemma closer_Suc:
  assumes "unat (transitions_count g) \<le> length (transitions g)"
  shows "closer h g (Suc d) = insert (target_node_index g) (\<Union>m\<in>closer h g d. all_preds h g m)"
proof (intro set_eqI iffI)
  fix x assume "x \<in> closer h g (Suc d)"
  then obtain ps where len: "length ps < Suc d" and p: "path h g x ps (target_node_index g)"
    by (auto simp: closer_def)
  show "x \<in> insert (target_node_index g) (\<Union>m\<in>closer h g d. all_preds h g m)"
  proof (cases ps)
    case Nil
    with p show ?thesis by simp
  next
    case (Cons q qs)
    with p obtain t where q: "q \<in> set (registered g)" and t: "deref h q = Some t"
      and av: "state t = GOFSM_Transition_State_Available" and src: "source_node_index t = x"
      and rest: "path h g (destination_node_index t) qs (target_node_index g)"
      by (auto split: option.splits)
    from len Cons rest have "destination_node_index t \<in> closer h g d"
      by (auto simp: closer_def)
    moreover have "x \<in> all_preds h g (destination_node_index t)"
      unfolding all_preds_iff [OF assms] using q t av src by blast
    ultimately show ?thesis by blast
  qed
next
  fix x assume "x \<in> insert (target_node_index g) (\<Union>m\<in>closer h g d. all_preds h g m)"
  then consider "x = target_node_index g" | m where "m \<in> closer h g d" "x \<in> all_preds h g m"
    by blast
  then show "x \<in> closer h g (Suc d)"
  proof cases
    case 1
    have "path h g x [] (target_node_index g)" using 1 by simp
    then show ?thesis unfolding closer_def by (intro CollectI exI [of _ "[]"]) simp
  next
    case 2
    from 2(1) obtain ps where len: "length ps < d" and p: "path h g m ps (target_node_index g)"
      by (auto simp: closer_def)
    from 2(2) obtain q t where q: "q \<in> set (registered g)" and t: "deref h q = Some t"
      and "destination_node_index t = m" "state t = GOFSM_Transition_State_Available"
      "source_node_index t = x"
      unfolding all_preds_iff [OF assms] by blast
    with p have "path h g x (q # ps) (target_node_index g)" by simp
    with len show ?thesis unfolding closer_def by (intro CollectI exI [of _ "q # ps"]) simp
  qed
qed

lemma closer_next:
  assumes "unat (transitions_count g) \<le> length (transitions g)"
  shows "closer h g (Suc (Suc d)) =
     closer h g (Suc d) \<union> (\<Union>m\<in>closer h g (Suc d) - closer h g d. all_preds h g m)"
proof -
  have split: "closer h g (Suc d) = closer h g d \<union> (closer h g (Suc d) - closer h g d)"
    using closer_mono [of h g d] by blast
  have "closer h g (Suc (Suc d)) =
      insert (target_node_index g) (\<Union>m\<in>closer h g (Suc d). all_preds h g m)"
    by (rule closer_Suc [OF assms])
  also have "(\<Union>m\<in>closer h g (Suc d). all_preds h g m) =
      (\<Union>m\<in>closer h g d. all_preds h g m) \<union>
      (\<Union>m\<in>closer h g (Suc d) - closer h g d. all_preds h g m)"
    using closer_mono [of h g d] by blast
  finally show ?thesis
    unfolding closer_Suc [OF assms, of h d] by blast
qed

lemma closer_fixed:
  assumes "unat (transitions_count g) \<le> length (transitions g)"
    and "closer h g (Suc d) = closer h g d"
  shows "closer h g (d + k) = closer h g d"
proof (induction k)
  case 0
  then show ?case by simp
next
  case (Suc k)
  show ?case
  proof (cases "d + k")
    case 0
    then show ?thesis using assms(2) by simp
  next
    case (Suc e)
    have "closer h g (Suc (d + k)) = insert (target_node_index g) (\<Union>m\<in>closer h g (d + k). all_preds h g m)"
      by (rule closer_Suc [OF assms(1)])
    also have "\<dots> = insert (target_node_index g) (\<Union>m\<in>closer h g d. all_preds h g m)"
      using \<open>closer h g (d + k) = closer h g d\<close> by simp
    also have "\<dots> = closer h g (Suc d)"
      by (rule closer_Suc [OF assms(1), symmetric])
    finally show ?thesis using assms(2) by simp
  qed
qed

lemma reach_fixed:
  assumes "unat (transitions_count g) \<le> length (transitions g)"
    and "closer h g (Suc d) = closer h g d"
  shows "reach h g = closer h g d"
proof
  show "reach h g \<subseteq> closer h g d"
  proof
    fix x assume "x \<in> reach h g"
    then obtain ps where "path h g x ps (target_node_index g)"
      by (auto simp: reach_def)
    then have "x \<in> closer h g (d + Suc (length ps))"
      unfolding closer_def by (intro CollectI exI [of _ ps]) simp
    then show "x \<in> closer h g d"
      by (simp only: closer_fixed [OF assms])
  qed
qed (rule closer_reach)

lemma reach_preds:
  assumes "unat (transitions_count g) \<le> length (transitions g)" and "m \<in> reach h g"
  shows "all_preds h g m \<subseteq> reach h g"
proof
  fix x assume "x \<in> all_preds h g m"
  then obtain q t where q: "q \<in> set (registered g)" and t: "deref h q = Some t"
      and "destination_node_index t = m" "state t = GOFSM_Transition_State_Available"
      "source_node_index t = x"
    unfolding all_preds_iff [OF assms(1)] by blast
  moreover from assms(2) obtain ps where "path h g m ps (target_node_index g)"
    by (auto simp: reach_def)
  ultimately have "path h g x (q # ps) (target_node_index g)" by simp
  then show "x \<in> reach h g" unfolding reach_def by blast
qed

lemma upt_split:
  assumes "[0..<n] = pre @ j # post"
  shows "j < n \<and> pre = [0..<j]"
proof -
  have "length [0..<n] = length (pre @ j # post)" using assms by simp
  then have len: "length pre < n" by simp
  have "[0..<n] ! length pre = j" using assms by simp
  with len have j: "j = length pre" by simp
  have "pre = take (length pre) [0..<n]" using assms by simp
  also have "\<dots> = [0..<length pre]" using len by simp
  finally show ?thesis using j len by simp
qed

lemma working_nodes:
  assumes "index_planned s + planned_length s = visited_length s"
    and "visited_length s \<le> length (buffer s)" and "distinct (visited s)"
  shows "(\<lambda>i. buffer s ! (index_planned s + i)) ` set [0..<planned_length s] =
     set (visited s) - set (take (index_planned s) (buffer s))"
proof -
  let ?V = "visited s" and ?ip = "index_planned s"
  have len: "length ?V = visited_length s" using assms(2) by (simp add: visited_def)
  have tk: "take ?ip (buffer s) = take ?ip ?V"
    using assms(1) by (simp add: visited_def min.absorb1)
  have "distinct (take ?ip ?V @ drop ?ip ?V)" using assms(3) by simp
  then have disj: "set (take ?ip ?V) \<inter> set (drop ?ip ?V) = {}"
    by (simp only: distinct_append)
  have "set ?V = set (take ?ip ?V) \<union> set (drop ?ip ?V)"
    by (metis append_take_drop_id set_append)
  with disj have d: "set (drop ?ip ?V) = set ?V - set (take ?ip ?V)" by blast
  have "set (drop ?ip ?V) = {drop ?ip ?V ! i | i. i < length (drop ?ip ?V)}"
    by (rule set_conv_nth)
  also have "\<dots> = {buffer s ! (?ip + i) | i. i < planned_length s}"
  proof -
    have l: "length (drop ?ip ?V) = planned_length s"
      using assms(1) len by simp
    have n: "?V ! (?ip + i) = buffer s ! (?ip + i)" if "i < planned_length s" for i
      using that assms(1) len by (simp add: visited_def)
    have dn: "drop ?ip ?V ! i = buffer s ! (?ip + i)" if "i < planned_length s" for i
      using that n l len assms(1) by simp
    show ?thesis
    proof (intro set_eqI iffI)
      fix x assume "x \<in> {drop ?ip ?V ! i | i. i < length (drop ?ip ?V)}"
      then obtain i where "i < planned_length s" and "x = drop ?ip ?V ! i"
        unfolding l by blast
      with dn have "x = buffer s ! (?ip + i)" by simp
      with \<open>i < planned_length s\<close> show "x \<in> {buffer s ! (?ip + i) | i. i < planned_length s}"
        by blast
    next
      fix x assume "x \<in> {buffer s ! (?ip + i) | i. i < planned_length s}"
      then obtain i where i: "i < planned_length s" and "x = buffer s ! (?ip + i)"
        by blast
      with dn have "x = drop ?ip ?V ! i" by simp
      with i show "x \<in> {drop ?ip ?V ! i | i. i < length (drop ?ip ?V)}"
        unfolding l by blast
    qed
  qed
  also have "\<dots> = (\<lambda>i. buffer s ! (?ip + i)) ` set [0..<planned_length s]"
    by auto
  finally show ?thesis using d tk by simp
qed

lemma search_layers_summary:
  assumes "registry_valid h g" and "layer_inv h g d s"
  shows "layers_post h g (search_layers h g s)"
  using assms
proof (induction h g s arbitrary: d rule: search_layers.induct)
  case (1 h g s)
  let ?n = "unat (transitions_count g)"
  let ?cur = "current_node_index g" and ?T = "target_node_index g"
  from "1.prems"(1) have n: "?n \<le> length (transitions g)"
    and reg: "\<forall>p\<in>set (registered g). \<exists>t. deref h p = Some t"
    by (auto simp: registry_valid_def)
  have valid: "\<forall>j<?n. j < length (transitions g) \<and> (\<exists>t. deref h (transitions g ! j) = Some t)"
  proof (intro allI impI conjI)
    fix j assume j: "j < ?n"
    with n show "j < length (transitions g)" by simp
    from j have "transitions g ! j \<in> set (registered g)"
      unfolding registered_nth [OF n] by blast
    with reg show "\<exists>t. deref h (transitions g ! j) = Some t" by blast
  qed
  from "1.prems"(2) have ok: "locals_ok (index_planned s) (reach h g) s"
    and V: "set (visited s) = closer h g (Suc d)"
    and P: "set (take (index_planned s) (buffer s)) = closer h g d"
    and cur: "?cur \<noteq> ?T \<longrightarrow> ?cur \<notin> set (visited s)"
    and earlier: "\<forall>k<index_planned s. \<forall>j<?n. \<not> immediate_return h g (buffer s ! k) (transitions g ! j)"
    by (auto simp: layer_inv_def)
  from ok have eq: "index_planned s + planned_length s = visited_length s"
    and le: "visited_length s \<le> length (buffer s)" and dist: "distinct (visited s)"
    by (auto simp: locals_ok_def)
  show ?case
  proof (cases "planned_length s = 0")
    case True
    then have res: "search_layers h g s = Next s"
      by (subst search_layers.simps) simp
    from True eq have "take (index_planned s) (buffer s) = visited s"
      by (simp add: visited_def)
    with V P have "closer h g (Suc d) = closer h g d" by simp
    then have "reach h g = closer h g (Suc d)"
      using reach_fixed [OF n] by simp
    with V cur have "?cur \<noteq> ?T \<longrightarrow> ?cur \<notin> reach h g" by simp
    with ok show ?thesis unfolding res by (simp add: layers_post_def)
  next
    case False
    let ?s1 = "s\<lparr>planned_length := 0, index_planned := index_planned s + planned_length s\<rparr>"
    let ?ns = "[0..<planned_length s]"
    let ?r = "scan_nodes h g (index_planned s) (index_planned s + planned_length s) ?ns ?s1"
    have unfold: "search_layers h g s = (case ?r of Next s' \<Rightarrow> search_layers h g s' | r \<Rightarrow> r)"
      using False by (subst search_layers.simps) simp
    have vis1: "visited ?s1 = visited s" by (simp add: visited_def)
    have ok1: "locals_ok (index_planned s + planned_length s) (reach h g) ?s1"
      using ok unfolding locals_ok_def vis1 by simp
    have inside: "\<forall>i\<in>set ?ns. index_planned s + i < visited_length ?s1"
      using eq by simp
    have W: "(\<lambda>i. buffer s ! (index_planned s + i)) ` set ?ns = closer h g (Suc d) - closer h g d"
      using working_nodes [OF eq le dist] V P by simp
    have closed: "\<forall>i\<in>set ?ns. preds h g (buffer ?s1 ! (index_planned s + i)) [0..<?n] \<subseteq> reach h g"
    proof
      fix i assume "i \<in> set ?ns"
      then have "buffer s ! (index_planned s + i) \<in> closer h g (Suc d)"
        using W by blast
      then have "buffer s ! (index_planned s + i) \<in> reach h g"
        using closer_reach by blast
      from reach_preds [OF n this]
      show "preds h g (buffer ?s1 ! (index_planned s + i)) [0..<?n] \<subseteq> reach h g"
        by (simp add: all_preds_def)
    qed
    note post = scan_nodes_summary [OF ok1 extends_refl inside valid closed]
    have U: "(\<Union>i\<in>set ?ns. preds h g (buffer ?s1 ! (index_planned s + i)) [0..<?n]) =
        (\<Union>m\<in>closer h g (Suc d) - closer h g d. all_preds h g m)"
      unfolding W [symmetric] by (simp add: all_preds_def)
    show ?thesis
    proof (cases ?r)
      case (Fault f)
      with post show ?thesis by (simp add: nodes_post_def)
    next
      case (Return p s')
      with post obtain pre i post' jpre j jpost where ok': "locals_ok (index_planned s + planned_length s) (reach h g) s'"
        and e: "extends ?s1 s'" and ns: "?ns = pre @ i # post'"
        and js: "[0..<?n] = jpre @ j # jpost" and p: "p = transitions g ! j"
        and hit: "immediate_return h g (buffer ?s1 ! (index_planned s + i)) p"
        and first: "\<forall>j'\<in>set jpre. \<not> immediate_return h g (buffer ?s1 ! (index_planned s + i)) (transitions g ! j')"
        and before: "\<forall>i'\<in>set pre. \<forall>j'<?n.
           \<not> immediate_return h g (buffer ?s1 ! (index_planned s + i')) (transitions g ! j')"
        by (auto simp: nodes_post_def)
      from e have ip: "index_planned s' = index_planned s + planned_length s"
        and vl: "visited_length s \<le> visited_length s'"
        by (simp_all add: extends_def)
      have same: "buffer s' ! k = buffer s ! k" if "k < visited_length s" for k
        using extends_nth [OF e, of k] that by simp
      from upt_split [OF js] have j: "j < ?n" and jpre: "jpre = [0..<j]" by simp_all
      from upt_split [OF ns] have i: "i < planned_length s" and pre: "pre = [0..<i]" by simp_all
      let ?k = "index_planned s + i"
      from i eq have k: "?k < visited_length s" by simp
      from i have "i \<in> set ?ns" by simp
      then have node: "buffer s ! ?k \<in> closer h g (Suc d)"
        using W by blast
      have prior: "\<not> immediate_return h g (buffer s' ! k') (transitions g ! j')"
        if "k' < ?k" and "j' < ?n" for k' j'
      proof -
        from that(1) k have b: "buffer s' ! k' = buffer s ! k'"
          by (intro same) simp
        show ?thesis
        proof (cases "k' < index_planned s")
          case True
          with earlier that(2) have "\<not> immediate_return h g (buffer s ! k') (transitions g ! j')"
            by blast
          with b show ?thesis by simp
        next
          case False
          define i' where "i' = k' - index_planned s"
          with False that(1) have k': "k' = index_planned s + i'" and "i' < i"
            by simp_all
          then have "i' \<in> set pre" using pre by simp
          with before that(2)
          have "\<not> immediate_return h g (buffer ?s1 ! (index_planned s + i')) (transitions g ! j')"
            by blast
          with b k' show ?thesis by simp
        qed
      qed
      have "\<exists>k j d. k < visited_length s' \<and> j < ?n \<and> p = transitions g ! j \<and>
             immediate_return h g (buffer s' ! k) p \<and>
             (\<forall>j'<j. \<not> immediate_return h g (buffer s' ! k) (transitions g ! j')) \<and>
             (\<forall>k'<k. \<forall>j'<?n. \<not> immediate_return h g (buffer s' ! k') (transitions g ! j')) \<and>
             buffer s' ! k \<in> closer h g (Suc d) \<and> (?cur \<noteq> ?T \<longrightarrow> ?cur \<notin> closer h g (Suc d))"
      proof (rule exI [of _ ?k], rule exI [of _ j], rule exI [of _ d], intro conjI)
        show "?k < visited_length s'" using k vl by simp
        show "j < ?n" by (rule j)
        show "p = transitions g ! j" by (rule p)
        show "immediate_return h g (buffer s' ! ?k) p"
          using hit same [OF k] by simp
        show "\<forall>j'<j. \<not> immediate_return h g (buffer s' ! ?k) (transitions g ! j')"
          using first same [OF k] unfolding jpre by simp
        show "\<forall>k'<?k. \<forall>j'<?n. \<not> immediate_return h g (buffer s' ! k') (transitions g ! j')"
          using prior by blast
        show "buffer s' ! ?k \<in> closer h g (Suc d)"
          using node same [OF k] by simp
        show "?cur \<noteq> ?T \<longrightarrow> ?cur \<notin> closer h g (Suc d)"
          using cur V by simp
      qed
      with ok' ip Return show ?thesis
        unfolding unfold by (simp add: layers_post_def)
    next
      case (Next s')
      with post have ok': "locals_ok (index_planned s + planned_length s) (reach h g) s'"
        and e: "extends ?s1 s'"
        and none: "\<forall>i\<in>set ?ns. \<forall>j<?n.
             \<not> immediate_return h g (buffer ?s1 ! (index_planned s + i)) (transitions g ! j)"
        and v: "set (visited s') = set (visited ?s1) \<union>
            (\<Union>i\<in>set ?ns. preds h g (buffer ?s1 ! (index_planned s + i)) [0..<?n])"
        by (auto simp: nodes_post_def)
      from e have ip: "index_planned s' = index_planned s + planned_length s"
        and tk: "take (visited_length s) (buffer s') = take (visited_length s) (buffer s)"
        by (simp_all add: extends_def)
      have V': "set (visited s') = closer h g (Suc (Suc d))"
        unfolding v U vis1 V closer_next [OF n] ..
      have P': "set (take (index_planned s') (buffer s')) = closer h g (Suc d)"
        using ip eq tk V by (simp add: visited_def)
      have cur': "?cur \<noteq> ?T \<longrightarrow> ?cur \<notin> set (visited s')"
      proof (intro impI notI)
        assume neq: "?cur \<noteq> ?T" and "?cur \<in> set (visited s')"
        with v vis1 cur obtain i where i: "i \<in> set ?ns"
          and "?cur \<in> preds h g (buffer ?s1 ! (index_planned s + i)) [0..<?n]"
          by auto
        then obtain j t where "j < ?n" "deref h (transitions g ! j) = Some t"
          "destination_node_index t = buffer ?s1 ! (index_planned s + i)"
          "state t = GOFSM_Transition_State_Available" "source_node_index t = ?cur"
          by (auto simp: preds_def)
        then have "j < ?n \<and> immediate_return h g (buffer ?s1 ! (index_planned s + i)) (transitions g ! j)"
          by (simp add: immediate_return_def)
        with none i show False by blast
      qed
      have same: "buffer s' ! k = buffer s ! k" if "k < visited_length s" for k
        using extends_nth [OF e, of k] that by simp
      have earlier': "\<not> immediate_return h g (buffer s' ! k) (transitions g ! j)"
        if "k < index_planned s'" and "j < ?n" for k j
      proof -
        from that(1) ip eq have b: "buffer s' ! k = buffer s ! k"
          by (intro same) simp
        show ?thesis
        proof (cases "k < index_planned s")
          case True
          with earlier that(2) have "\<not> immediate_return h g (buffer s ! k) (transitions g ! j)"
            by blast
          with b show ?thesis by simp
        next
          case False
          define i where "i = k - index_planned s"
          with False that(1) ip have k: "k = index_planned s + i" and "i < planned_length s"
            by simp_all
          then have "i \<in> set ?ns" by simp
          with none that(2)
          have "\<not> immediate_return h g (buffer ?s1 ! (index_planned s + i)) (transitions g ! j)"
            by blast
          with b k show ?thesis by simp
        qed
      qed
      have "layer_inv h g (Suc d) s'"
        unfolding layer_inv_def using ok' ip V' P' cur' earlier' by auto
      from "1.IH" [OF False _ "1.prems"(1) this] Next
      show ?thesis unfolding unfold by simp
    qed
  qed
qed

lemma path_last_edge:
  "path h g x ps y \<Longrightarrow> ps \<noteq> [] \<Longrightarrow>
   \<exists>p\<in>set (registered g). \<exists>t. deref h p = Some t \<and> destination_node_index t = y"
proof (induction ps arbitrary: x)
  case Nil
  then show ?case by simp
next
  case (Cons q qs)
  from Cons.prems(1) obtain t where q: "q \<in> set (registered g)" and t: "deref h q = Some t"
    and rest: "path h g (destination_node_index t) qs y"
    by (auto split: option.splits)
  show ?case
  proof (cases qs)
    case Nil
    with rest q t show ?thesis by auto
  next
    case (Cons a list)
    with Cons.IH [OF rest] show ?thesis by simp
  qed
qed

lemma card_below: "card {x :: 8 word. x < c} \<le> unat c"
proof -
  have "card {x :: 8 word. x < c} \<le> card {..<unat c}"
    by (rule card_inj_on_le [where f = unat]) (auto simp: word_less_nat_alt inj_on_def word_unat_eq_iff)
  then show ?thesis by simp
qed

lemma reach_card:
  assumes "nodes_within_capacity h g" and "0 < nodes_capacity g"
  shows "card (reach h g) \<le> length (alg_nodes_buffer g)"
proof (cases "target_node_index g < nodes_capacity g")
  case True
  have "reach h g \<subseteq> {x. x < nodes_capacity g}"
  proof
    fix x assume "x \<in> reach h g"
    then obtain ps where p: "path h g x ps (target_node_index g)"
      by (auto simp: reach_def)
    show "x \<in> {x. x < nodes_capacity g}"
    proof (cases ps)
      case Nil
      with p True show ?thesis by simp
    next
      case (Cons q qs)
      with p assms(1) show ?thesis
        by (auto simp: nodes_within_capacity_def split: option.splits)
    qed
  qed
  then have "card (reach h g) \<le> card {x. x < nodes_capacity g}"
    by (intro card_mono) simp_all
  with card_below [of "nodes_capacity g"] assms(1) show ?thesis
    by (simp add: nodes_within_capacity_def)
next
  case False
  have "reach h g \<subseteq> {target_node_index g}"
  proof
    fix x assume "x \<in> reach h g"
    then obtain ps where p: "path h g x ps (target_node_index g)"
      by (auto simp: reach_def)
    have "ps = []"
    proof (rule ccontr)
      assume "ps \<noteq> []"
      from path_last_edge [OF p this] assms(1) have "target_node_index g < nodes_capacity g"
        by (auto simp: nodes_within_capacity_def)
      with False show False by simp
    qed
    with p show "x \<in> {target_node_index g}" by simp
  qed
  then have "card (reach h g) \<le> card {target_node_index g}"
    by (intro card_mono) simp_all
  moreover from assms(2) have "1 \<le> unat (nodes_capacity g)"
    by (simp add: word_less_nat_alt)
  ultimately show ?thesis
    using assms(1) by (simp add: nodes_within_capacity_def)
qed

lemma search_summary:
  assumes "registry_valid h g" and "0 < length (alg_nodes_buffer g)"
    and "card (reach h g) \<le> length (alg_nodes_buffer g)"
  shows "layers_post h g
     (search_layers h g
        \<lparr>buffer = (alg_nodes_buffer g)[0 := target_node_index g],
         index_planned = 0, planned_length = 1, visited_length = 1\<rparr>)"
proof -
  let ?s = "\<lparr>buffer = (alg_nodes_buffer g)[0 := target_node_index g],
         index_planned = 0, planned_length = 1, visited_length = 1\<rparr>"
  from assms(1) have n: "unat (transitions_count g) \<le> length (transitions g)"
    by (simp add: registry_valid_def)
  have v: "visited ?s = [target_node_index g]"
    using assms(2) by (simp add: visited_def take_Suc_conv_app_nth)
  have "path h g (target_node_index g) [] (target_node_index g)" by simp
  then have "target_node_index g \<in> reach h g"
    unfolding reach_def by blast
  moreover from assms(2) have "Suc 0 \<le> length (alg_nodes_buffer g)"
    by (cases "alg_nodes_buffer g") simp_all
  ultimately have ok: "locals_ok (index_planned ?s) (reach h g) ?s"
    unfolding locals_ok_def v using assms(3) by simp
  have c1: "closer h g (Suc 0) = {target_node_index g}"
    unfolding closer_Suc [OF n] by (simp add: closer_0)
  have "layer_inv h g 0 ?s"
    unfolding layer_inv_def v c1 using ok by (simp add: closer_0)
  with assms(1) show ?thesis by (rule search_layers_summary)
qed

text \<open>
  C3. Let the registry and the scratch buffer satisfy the contract, and let the current
  node \<open>C\<close> differ from the target \<open>T\<close>. The search returns without fault. If some path
  of registered \<^verbatim>\<open>Available\<close> transitions leads from \<open>C\<close> to \<open>T\<close>, the result is a
  registered \<^verbatim>\<open>Available\<close> transition that starts at \<open>C\<close> and is the first transition
  of a path to \<open>T\<close> that no path from \<open>C\<close> to \<open>T\<close> is shorter than; otherwise the result
  is \<open>NULL\<close>. Paths hold \<^verbatim>\<open>Available\<close> transitions only, so a \<^verbatim>\<open>Blocked\<close> one is
  neither returned nor counted for reachability.
\<close>

theorem C3_search_first_step_of_shortest_path:
  assumes "registry_valid h g" and "nodes_within_capacity h g" and "0 < nodes_capacity g"
    and "current_node_index g \<noteq> target_node_index g"
  shows "\<exists>p buf. GOFSM_SearchNextStep h g = Inr (p, buf) \<and>
     (if \<exists>qs. path h g (current_node_index g) qs (target_node_index g)
      then p \<noteq> NULL \<and>
        (\<exists>t ps. deref h p = Some t \<and> p \<in> set (registered g) \<and>
           source_node_index t = current_node_index g \<and>
           state t = GOFSM_Transition_State_Available \<and>
           path h g (current_node_index g) (p # ps) (target_node_index g) \<and>
           (\<forall>qs. path h g (current_node_index g) qs (target_node_index g) \<longrightarrow>
              length (p # ps) \<le> length qs))
      else p = NULL)"
proof -
  let ?C = "current_node_index g" and ?T = "target_node_index g"
  let ?s = "\<lparr>buffer = (alg_nodes_buffer g)[0 := ?T],
         index_planned = 0, planned_length = 1, visited_length = 1\<rparr>"
  from assms(2,3) have pos: "0 < length (alg_nodes_buffer g)"
    by (simp add: nodes_within_capacity_def word_less_nat_alt)
  from assms(1) have n: "unat (transitions_count g) \<le> length (transitions g)"
    by (simp add: registry_valid_def)
  note post = search_summary [OF assms(1) pos reach_card [OF assms(2,3)]]
  show ?thesis
  proof (cases "search_layers h g ?s")
    case (Fault f)
    with post show ?thesis by (simp add: layers_post_def)
  next
    case (Return p s')
    with post assms(4) obtain k j d where j: "j < unat (transitions_count g)"
      and p: "p = transitions g ! j"
      and hit: "immediate_return h g (buffer s' ! k) p"
      and node: "buffer s' ! k \<in> closer h g (Suc d)"
      and far: "?C \<notin> closer h g (Suc d)"
      by (auto simp: layers_post_def)
    from hit obtain t where t: "deref h p = Some t"
      and dst: "destination_node_index t = buffer s' ! k"
      and av: "state t = GOFSM_Transition_State_Available"
      and src: "source_node_index t = ?C"
      by (auto simp: immediate_return_def split: option.splits)
    from t have nn: "p \<noteq> NULL" by (auto simp: deref_def)
    from j p have reg: "p \<in> set (registered g)"
      unfolding registered_nth [OF n] by blast
    from node obtain ps where len: "length ps < Suc d" and ps: "path h g (buffer s' ! k) ps ?T"
      by (auto simp: closer_def)
    from reg t av src dst ps have path: "path h g ?C (p # ps) ?T" by simp
    have short: "length (p # ps) \<le> length qs" if "path h g ?C qs ?T" for qs
    proof (rule ccontr)
      assume "\<not> length (p # ps) \<le> length qs"
      with len have "length qs < Suc d" by simp
      with that have "?C \<in> closer h g (Suc d)" unfolding closer_def by blast
      with far show False by simp
    qed
    have res: "GOFSM_SearchNextStep h g = Inr (p, buffer s')"
      using Return pos by (simp add: GOFSM_SearchNextStep_def GOFSM_SearchNextStep_locals_def)
    from path have ex: "\<exists>qs. path h g ?C qs ?T" by blast
    show ?thesis
      unfolding res using ex nn t reg src av path short by (simp only: if_True) blast
  next
    case (Next s')
    with post assms(4) have "?C \<notin> reach h g"
      by (simp add: layers_post_def)
    then have no: "\<not> (\<exists>qs. path h g ?C qs ?T)"
      by (simp add: reach_def)
    have res: "GOFSM_SearchNextStep h g = Inr (NULL, buffer s')"
      using Next pos by (simp add: GOFSM_SearchNextStep_def GOFSM_SearchNextStep_locals_def)
    show ?thesis
      unfolding res using no by simp
  qed
qed

lemmas search_defs = GOFSM_SearchNextStep_def GOFSM_SearchNextStep_locals_def
  search_layers.simps deref_def upt_conv_Cons

lemma ex_engine_ready:
  "registry_valid ex_store ex_engine" "nodes_within_capacity ex_store ex_engine"
  "0 < nodes_capacity ex_engine" "current_node_index ex_engine \<noteq> target_node_index ex_engine"
  by (simp_all add: registry_valid_def nodes_within_capacity_def registered_def ex_defs deref_def)

theorem C3_search_first_step_of_shortest_path_witness:
  "registry_valid ex_store ex_engine \<and> nodes_within_capacity ex_store ex_engine \<and>
   0 < nodes_capacity ex_engine \<and>
   current_node_index ex_engine \<noteq> target_node_index ex_engine \<and>
   path ex_store ex_engine 0 [Object 1, Object 2] 2 \<and>
   GOFSM_SearchNextStep ex_store ex_engine = Inr (Object 1, [2, 1, 0]) \<and>
   (\<exists>ps. path ex_store ex_engine 0 (Object 1 # ps) 2 \<and>
      (\<forall>qs. path ex_store ex_engine 0 qs 2 \<longrightarrow> length (Object 1 # ps) \<le> length qs))"
proof -
  have p: "path ex_store ex_engine 0 [Object 1, Object 2] 2"
    by (simp add: registered_def ex_defs deref_def)
  have v: "GOFSM_SearchNextStep ex_store ex_engine = Inr (Object 1, [2, 1, 0])"
    by (simp add: ex_defs search_defs)
  have ex: "\<exists>qs. path ex_store ex_engine (current_node_index ex_engine) qs
      (target_node_index ex_engine)"
    using p by (intro exI [of _ "[Object 1, Object 2]"]) (simp add: ex_engine_def)
  have c: "current_node_index ex_engine = 0" "target_node_index ex_engine = 2"
    by (simp_all add: ex_engine_def)
  from C3_search_first_step_of_shortest_path [OF ex_engine_ready] v ex
  have "\<exists>ps. path ex_store ex_engine 0 (Object 1 # ps) 2 \<and>
      (\<forall>qs. path ex_store ex_engine 0 qs 2 \<longrightarrow> length (Object 1 # ps) \<le> length qs)"
    unfolding c by (simp only: if_True sum.inject prod.inject) blast
  with p v ex_engine_ready show ?thesis by simp
qed

text \<open>
  C7. Let the capacity of the scratch buffer be at least the size of the node domain:
  the buffer has \<^verbatim>\<open>nodes_capacity\<close> cells, every registered pointer holds a transition
  whose source and destination node are below \<^verbatim>\<open>nodes_capacity\<close>, and the domain is
  not empty (the target is a node), so \<^verbatim>\<open>nodes_capacity\<close> is at least 1. Then the
  search returns without fault, so every access to the buffer was inside it; the written
  part of the buffer holds no node twice; and it is no longer than \<^verbatim>\<open>nodes_capacity\<close>.
\<close>

theorem C7_scratch_region_safe:
  assumes "registry_valid h g" and "nodes_within_capacity h g" and "0 < nodes_capacity g"
  shows "\<exists>p s. GOFSM_SearchNextStep_locals h g = Inr (p, s) \<and>
     distinct (take (visited_length s) (buffer s)) \<and>
     visited_length s \<le> unat (nodes_capacity g)"
proof -
  let ?s = "\<lparr>buffer = (alg_nodes_buffer g)[0 := target_node_index g],
         index_planned = 0, planned_length = 1, visited_length = 1\<rparr>"
  from assms(2,3) have pos: "0 < length (alg_nodes_buffer g)"
    by (simp add: nodes_within_capacity_def word_less_nat_alt)
  note card = reach_card [OF assms(2,3)]
  note post = search_summary [OF assms(1) pos card]
  have fit: "distinct (take (visited_length s') (buffer s')) \<and>
      visited_length s' \<le> unat (nodes_capacity g)"
    if "locals_ok (index_planned s') (reach h g) s'" for s'
  proof -
    from that have le: "visited_length s' \<le> length (buffer s')"
      and d: "distinct (visited s')" and sub: "set (visited s') \<subseteq> reach h g"
      by (auto simp: locals_ok_def)
    from le have "length (visited s') = visited_length s'" by (simp add: visited_def)
    with d have "visited_length s' = card (set (visited s'))" by (simp add: distinct_card)
    also have "\<dots> \<le> card (reach h g)" using sub by (intro card_mono) simp_all
    finally have "visited_length s' \<le> unat (nodes_capacity g)"
      using card assms(2) by (simp add: nodes_within_capacity_def)
    with d show ?thesis by (simp add: visited_def)
  qed
  show ?thesis
  proof (cases "search_layers h g ?s")
    case (Fault f)
    with post show ?thesis by (simp add: layers_post_def)
  next
    case (Return p s')
    with post have "locals_ok (index_planned s') (reach h g) s'" by (simp add: layers_post_def)
    from fit [OF this] Return pos show ?thesis
      by (simp add: GOFSM_SearchNextStep_locals_def)
  next
    case (Next s')
    with post have "locals_ok (index_planned s') (reach h g) s'" by (simp add: layers_post_def)
    from fit [OF this] Next pos show ?thesis
      by (simp add: GOFSM_SearchNextStep_locals_def)
  qed
qed

theorem C7_scratch_region_safe_witness:
  "registry_valid ex_store ex_engine \<and> nodes_within_capacity ex_store ex_engine \<and>
   0 < nodes_capacity ex_engine \<and>
   GOFSM_SearchNextStep_locals ex_store ex_engine =
     Inr (Object 1, \<lparr>buffer = [2, 1, 0], index_planned = 2, planned_length = 0,
                     visited_length = 2\<rparr>) \<and>
   (\<exists>p s. GOFSM_SearchNextStep_locals ex_store ex_engine = Inr (p, s) \<and>
      distinct (take (visited_length s) (buffer s)) \<and>
      visited_length s \<le> unat (nodes_capacity ex_engine))"
proof -
  have "GOFSM_SearchNextStep_locals ex_store ex_engine =
     Inr (Object 1, \<lparr>buffer = [2, 1, 0], index_planned = 2, planned_length = 0,
                     visited_length = 2\<rparr>)"
    by (simp add: ex_defs search_defs)
  with C7_scratch_region_safe [OF ex_engine_ready(1,2,3)] ex_engine_ready show ?thesis
    by blast
qed




section \<open>The registry\<close>

lemma zero_transitions_length:
  "zero_transitions ts ns = Inr ts' \<Longrightarrow> length ts' = length ts"
  by (induction ns arbitrary: ts) (auto split: if_splits)

lemma find_transition_Some:
  "find_transition ts p ns = Inr (Some i) \<Longrightarrow> i \<in> set ns \<and> i < length ts \<and> ts ! i = p"
  by (induction ns) (auto split: if_splits)

lemma InitStatic_fields:
  "GOFSM_InitStatic g = Inr g' \<Longrightarrow>
   transitions_count g' = 0 \<and> transitions_capacity g' = transitions_capacity g \<and>
   is_transition_failure g' = 0 \<and> transition_current g' = NULL \<and>
   length (transitions g') = length (transitions g)"
  by (auto simp: GOFSM_InitStatic_def split: sum.splits dest: zero_transitions_length)

lemma OnTick_registry:
  "GOFSM_OnTick h g w = Inr (g', w', ev) \<Longrightarrow>
   transitions_count g' = transitions_count g \<and> transitions_capacity g' = transitions_capacity g \<and>
   transitions g' = transitions g"
  by (auto simp: GOFSM_OnTick_def GOFSM_OnTick_replan_def GOFSM_OnTick_attempt_def Let_def
      split: if_splits sum.splits prod.splits option.splits)

lemma AddTransition_count:
  assumes "GOFSM_AddTransition g p = Inr (e, g')"
    and "transitions_count g \<le> transitions_capacity g"
  shows "transitions_count g' \<le> transitions_capacity g'"
proof (cases "transitions_count g = transitions_capacity g")
  case True
  with assms show ?thesis by (simp add: GOFSM_AddTransition_def)
next
  case False
  with assms(2) have "transitions_count g < transitions_capacity g" by simp
  then have "transitions_count g + 1 \<le> transitions_capacity g"
    by (rule inc_le)
  with assms(1) False show ?thesis
    by (auto simp: GOFSM_AddTransition_def split: if_splits)
qed

lemma RemoveTransition_count:
  assumes "GOFSM_RemoveTransition g p = Inr (e, g')"
    and "transitions_count g \<le> transitions_capacity g"
  shows "transitions_count g' \<le> transitions_capacity g'"
proof (cases e)
  case GOFSM_Error_No
  with assms(1) obtain i where "find_transition (transitions g) p [0..<unat (transitions_count g)] = Inr (Some i)"
    and g': "g' = g\<lparr>transitions := memmove_down (transitions g) i (unat (transitions_count g) - i - 1),
                    transitions_count := transitions_count g - 1\<rparr>"
    by (auto simp: GOFSM_RemoveTransition_def Let_def split: sum.splits option.splits if_splits)
  then have "i < unat (transitions_count g)"
    by (auto dest: find_transition_Some)
  then have "transitions_count g \<noteq> 0"
    by (auto simp: unat_eq_0)
  then have "unat (transitions_count g - 1) \<le> unat (transitions_count g)"
    by (simp add: unat_minus_one)
  with assms(2) g' show ?thesis by (simp add: word_le_nat_alt)
next
  case GOFSM_Error_OwerstackTransitions
  with assms show ?thesis
    by (auto simp: GOFSM_RemoveTransition_def Let_def split: sum.splits option.splits if_splits)
next
  case GOFSM_Error_NotRegisteredTransition
  with assms show ?thesis
    by (auto simp: GOFSM_RemoveTransition_def Let_def split: sum.splits option.splits if_splits)
qed

lemma exec_count:
  assumes "exec c (h, g, w) = Inr ((h', g', w'), ev)"
    and "transitions_count g \<le> transitions_capacity g"
  shows "transitions_count g' \<le> transitions_capacity g'"
proof (cases c)
  case Call_InitStatic
  with assms show ?thesis
    by (auto split: sum.splits dest!: InitStatic_fields)
next
  case (Call_Init tc nc mt mn)
  with assms show ?thesis
    by (auto simp: GOFSM_Init_def split: sum.splits dest!: InitStatic_fields)
next
  case Call_Deinit
  with assms show ?thesis by (auto simp: GOFSM_Deinit_def split: if_splits)
next
  case (Call_Transition_Init p a b f)
  with assms show ?thesis by (auto split: sum.splits)
next
  case (Call_Transition_SetState p st)
  with assms show ?thesis
    by (auto simp: GOFSM_Transition_SetState_def split: sum.splits ptr.splits option.splits)
next
  case (Call_AddTransition p)
  with assms show ?thesis
    by (auto split: sum.splits dest: AddTransition_count)
next
  case (Call_RemoveTransition p)
  with assms show ?thesis
    by (auto split: sum.splits dest: RemoveTransition_count)
next
  case (Call_SetCurrent n)
  with assms show ?thesis by (auto simp: GOFSM_SetCurrent_def)
next
  case (Call_SetTarget n)
  with assms show ?thesis by (auto simp: GOFSM_SetTarget_def)
next
  case Call_OnTick
  with assms show ?thesis
    by (auto split: sum.splits dest!: OnTick_registry)
qed

lemma run_count:
  "run cs (h, g, w) = Inr ((h', g', w'), ev) \<Longrightarrow>
   transitions_count g \<le> transitions_capacity g \<Longrightarrow>
   transitions_count g' \<le> transitions_capacity g'"
proof (induction cs arbitrary: h g w ev)
  case Nil
  then show ?case by simp
next
  case (Cons c cs)
  from Cons.prems(1) obtain h1 g1 w1 ev1 ev2 where
    step: "exec c (h, g, w) = Inr ((h1, g1, w1), ev1)"
    and rest: "run cs (h1, g1, w1) = Inr ((h', g', w'), ev2)"
    by (auto split: sum.splits)
  from exec_count [OF step Cons.prems(2)] Cons.IH [OF rest] show ?case by simp
qed

lemma AddTransition_appends:
  assumes "transitions_count g \<noteq> transitions_capacity g"
    and "transitions_count g \<le> transitions_capacity g"
    and "length (transitions g) = unat (transitions_capacity g)"
  shows "\<exists>g'. GOFSM_AddTransition g p = Inr (GOFSM_Error_No, g') \<and>
            registered g' = registered g @ [p] \<and>
            unat (transitions_count g') = unat (transitions_count g) + 1"
proof -
  from assms(1,2) have lt: "transitions_count g < transitions_capacity g" by simp
  then have n: "unat (transitions_count g) < length (transitions g)"
    using assms(3) by (simp add: word_less_nat_alt)
  from lt have "unat (transitions_count g) + unat (1 :: uint8_t) < 2 ^ LENGTH(8)"
    using unsigned_less [of "transitions_capacity g", where ?'a = nat] by (simp add: word_less_nat_alt)
  then have u: "unat (transitions_count g + 1) = Suc (unat (transitions_count g))"
    by (simp add: unat_add_lem [THEN iffD1])
  show ?thesis
    using assms(1) n u
    by (simp add: GOFSM_AddTransition_def registered_def take_Suc_conv_app_nth)
qed

text \<open>
  C8. \<^verbatim>\<open>GOFSM_AddTransition\<close> returns \<^verbatim>\<open>GOFSM_Error_OwerstackTransitions\<close> exactly when
  the count equals the capacity, and then the engine is unchanged. Otherwise, in a
  registry whose array has \<^verbatim>\<open>transitions_capacity\<close> cells and whose count is within the
  capacity, it returns \<^verbatim>\<open>GOFSM_Error_No\<close> and the registered transitions are the old ones
  followed by the new one. The count is within the capacity after
  \<^verbatim>\<open>GOFSM_InitStatic\<close>, and stays within it through any sequence of calls of the
  public functions.
\<close>

theorem C8_registry_capacity:
  "(GOFSM_AddTransition g p = Inr (GOFSM_Error_OwerstackTransitions, g') \<longleftrightarrow>
      transitions_count g = transitions_capacity g \<and> g' = g) \<and>
   (transitions_count g \<noteq> transitions_capacity g \<and>
    transitions_count g \<le> transitions_capacity g \<and>
    length (transitions g) = unat (transitions_capacity g) \<longrightarrow>
      (\<exists>g''. GOFSM_AddTransition g p = Inr (GOFSM_Error_No, g'') \<and>
         registered g'' = registered g @ [p] \<and>
         unat (transitions_count g'') = unat (transitions_count g) + 1)) \<and>
   (\<forall>g0 g1. GOFSM_InitStatic g0 = Inr g1 \<longrightarrow>
      transitions_count g1 \<le> transitions_capacity g1) \<and>
   (\<forall>cs h w h1 g1 w1 ev.
      transitions_count g \<le> transitions_capacity g \<and>
      run cs (h, g, w) = Inr ((h1, g1, w1), ev) \<longrightarrow>
      transitions_count g1 \<le> transitions_capacity g1)"
proof (intro conjI allI impI)
  show "GOFSM_AddTransition g p = Inr (GOFSM_Error_OwerstackTransitions, g') \<longleftrightarrow>
      transitions_count g = transitions_capacity g \<and> g' = g"
    by (auto simp: GOFSM_AddTransition_def)
next
  assume "transitions_count g \<noteq> transitions_capacity g \<and>
    transitions_count g \<le> transitions_capacity g \<and>
    length (transitions g) = unat (transitions_capacity g)"
  then show "\<exists>g''. GOFSM_AddTransition g p = Inr (GOFSM_Error_No, g'') \<and>
         registered g'' = registered g @ [p] \<and>
         unat (transitions_count g'') = unat (transitions_count g) + 1"
    using AddTransition_appends [of g p] by blast
next
  fix g0 g1 :: GOFSM_t
  assume "GOFSM_InitStatic g0 = Inr g1"
  then show "transitions_count g1 \<le> transitions_capacity g1"
    by (auto dest!: InitStatic_fields)
next
  fix cs :: "'a call list" and h w h1 g1 w1 ev
  assume "transitions_count g \<le> transitions_capacity g \<and>
      run cs (h, g, w) = Inr ((h1, g1, w1), ev)"
  then show "transitions_count g1 \<le> transitions_capacity g1"
    using run_count [of cs h g w h1 g1 w1 ev] by blast
qed

theorem C8_registry_capacity_witness:
  "transitions_count ex_engine = transitions_capacity ex_engine \<and>
   GOFSM_AddTransition ex_engine (Object 3) = Inr (GOFSM_Error_OwerstackTransitions, ex_engine) \<and>
   transitions_count ex_free_engine \<noteq> transitions_capacity ex_free_engine \<and>
   transitions_count ex_free_engine \<le> transitions_capacity ex_free_engine \<and>
   length (transitions ex_free_engine) = unat (transitions_capacity ex_free_engine) \<and>
   (\<exists>g''. GOFSM_AddTransition ex_free_engine (Object 2) = Inr (GOFSM_Error_No, g'') \<and>
      registered g'' = registered ex_free_engine @ [Object 2] \<and>
      unat (transitions_count g'') = unat (transitions_count ex_free_engine) + 1) \<and>
   run [Call_AddTransition (Object 2), Call_AddTransition (Object 3)]
     (ex_store, ex_free_engine, 0::nat) = Inr ((ex_store, ex_engine, 0), []) \<and>
   transitions_count ex_engine \<le> transitions_capacity ex_engine"
proof -
  note inst = C8_registry_capacity [where ?'a = nat, of ex_engine "Object 3" ex_engine]
  note inst' = C8_registry_capacity [where ?'a = nat, of ex_free_engine "Object 2" ex_free_engine]
  have full: "transitions_count ex_engine = transitions_capacity ex_engine"
    by (simp add: ex_engine_def)
  have free: "transitions_count ex_free_engine \<noteq> transitions_capacity ex_free_engine"
    "transitions_count ex_free_engine \<le> transitions_capacity ex_free_engine"
    "length (transitions ex_free_engine) = unat (transitions_capacity ex_free_engine)"
    by (simp_all add: ex_free_engine_def)
  have r: "run [Call_AddTransition (Object 2), Call_AddTransition (Object 3)]
     (ex_store, ex_free_engine, 0::nat) = Inr ((ex_store, ex_engine, 0), [])"
    by (simp add: GOFSM_AddTransition_def ex_free_engine_def ex_engine_def)
  from inst full have a: "GOFSM_AddTransition ex_engine (Object 3) =
      Inr (GOFSM_Error_OwerstackTransitions, ex_engine)"
    by blast
  from inst' free have b: "\<exists>g''. GOFSM_AddTransition ex_free_engine (Object 2) = Inr (GOFSM_Error_No, g'') \<and>
      registered g'' = registered ex_free_engine @ [Object 2] \<and>
      unat (transitions_count g'') = unat (transitions_count ex_free_engine) + 1"
    by blast
  from inst' free(2) r have c: "transitions_count ex_engine \<le> transitions_capacity ex_engine"
    by blast
  from full a free b r c show ?thesis by blast
qed

section \<open>The failure flag and the cached transition\<close>

lemma scan_transitions_Return_deref:
  "scan_transitions h g planned node js s = Return p s' \<Longrightarrow> \<exists>t. deref h p = Some t"
  by (induction js arbitrary: s)
    (auto split: if_splits option.splits sum.splits bool.splits simp: Let_def)

lemma scan_nodes_Return_deref:
  "scan_nodes h g working planned ns s = Return p s' \<Longrightarrow> \<exists>t. deref h p = Some t"
  by (induction ns arbitrary: s)
    (auto split: if_splits scan.splits dest: scan_transitions_Return_deref)

lemma search_layers_Return_deref:
  "search_layers h g s = Return p s' \<Longrightarrow> \<exists>t. deref h p = Some t"
proof (induction h g s rule: search_layers.induct)
  case (1 h g s)
  show ?case
  proof (cases "planned_length s = 0")
    case True
    then have "search_layers h g s = Next s"
      by (subst search_layers.simps) simp
    with "1.prems" show ?thesis by simp
  next
    case False
    let ?r = "scan_nodes h g (index_planned s) (index_planned s + planned_length s)
                [0..<planned_length s]
                (s\<lparr>planned_length := 0,
                   index_planned := index_planned s + planned_length s\<rparr>)"
    have unfold: "search_layers h g s = (case ?r of Next s' \<Rightarrow> search_layers h g s' | r \<Rightarrow> r)"
      using False by (subst search_layers.simps) simp
    show ?thesis
    proof (cases ?r)
      case (Fault f)
      with "1.prems" unfold show ?thesis by simp
    next
      case (Return q t)
      with "1.prems" unfold have "?r = Return p s'" by simp
      then show ?thesis by (rule scan_nodes_Return_deref)
    next
      case (Next t)
      with "1.prems" unfold have "search_layers h g t = Return p s'" by simp
      with "1.IH" [OF False Next] show ?thesis by simp
    qed
  qed
qed

lemma SearchNextStep_deref:
  assumes "GOFSM_SearchNextStep h g = Inr (p, buf)" and "p \<noteq> NULL"
  shows "\<exists>t. deref h p = Some t"
proof -
  let ?s = "\<lparr>buffer = (alg_nodes_buffer g)[0 := target_node_index g],
         index_planned = 0, planned_length = 1, visited_length = 1\<rparr>"
  from assms(1) have pos: "0 < length (alg_nodes_buffer g)"
    by (auto simp: GOFSM_SearchNextStep_def GOFSM_SearchNextStep_locals_def split: if_splits)
  show ?thesis
  proof (cases "search_layers h g ?s")
    case (Fault f)
    with assms(1) pos show ?thesis
      by (simp add: GOFSM_SearchNextStep_def GOFSM_SearchNextStep_locals_def)
  next
    case (Return q s')
    with assms(1) pos have "q = p"
      by (simp add: GOFSM_SearchNextStep_def GOFSM_SearchNextStep_locals_def)
    with Return show ?thesis by (auto dest: search_layers_Return_deref)
  next
    case (Next s')
    with assms pos show ?thesis
      by (simp add: GOFSM_SearchNextStep_def GOFSM_SearchNextStep_locals_def)
  qed
qed

lemma attempt_failure_inv:
  "GOFSM_OnTick_attempt h g w = Inr (g', w', ev) \<Longrightarrow> failure_has_transition g'"
  by (auto simp: GOFSM_OnTick_attempt_def failure_has_transition_def Let_def
      split: if_splits option.splits prod.splits)

lemma OnTick_failure_inv:
  assumes "GOFSM_OnTick h g w = Inr (g', w', ev)" and "failure_has_transition g"
  shows "failure_has_transition g'"
proof (cases "current_node_index g = target_node_index g")
  case True
  with assms show ?thesis by (simp add: GOFSM_OnTick_def)
next
  case False
  with assms(1) obtain g1 ev1 ev2 where "GOFSM_OnTick_attempt h g1 w = Inr (g', w', ev2)"
    by (auto simp: GOFSM_OnTick_def split: sum.splits)
  then show ?thesis by (rule attempt_failure_inv)
qed

lemma exec_failure_inv:
  assumes "exec c (h, g, w) = Inr ((h', g', w'), ev)" and "failure_has_transition g"
  shows "failure_has_transition g'"
proof (cases c)
  case Call_InitStatic
  with assms show ?thesis
    by (auto simp: failure_has_transition_def split: sum.splits dest!: InitStatic_fields)
next
  case (Call_Init tc nc mt mn)
  with assms show ?thesis
    by (auto simp: failure_has_transition_def GOFSM_Init_def split: sum.splits
        dest!: InitStatic_fields)
next
  case Call_Deinit
  with assms show ?thesis
    by (auto simp: failure_has_transition_def GOFSM_Deinit_def split: if_splits)
next
  case (Call_Transition_Init p a b f)
  with assms show ?thesis by (auto split: sum.splits)
next
  case (Call_Transition_SetState p st)
  with assms show ?thesis
    by (auto simp: failure_has_transition_def GOFSM_Transition_SetState_def
        split: sum.splits ptr.splits option.splits)
next
  case (Call_AddTransition p)
  with assms show ?thesis
    by (auto simp: failure_has_transition_def GOFSM_AddTransition_def split: sum.splits if_splits)
next
  case (Call_RemoveTransition p)
  with assms show ?thesis
    by (auto simp: failure_has_transition_def GOFSM_RemoveTransition_def Let_def
        split: sum.splits if_splits option.splits)
next
  case (Call_SetCurrent n)
  with assms show ?thesis by (auto simp: failure_has_transition_def GOFSM_SetCurrent_def)
next
  case (Call_SetTarget n)
  with assms show ?thesis by (auto simp: failure_has_transition_def GOFSM_SetTarget_def)
next
  case Call_OnTick
  with assms show ?thesis
    by (auto split: sum.splits dest: OnTick_failure_inv)
qed

lemma tick_without_transition:
  assumes "failure_has_transition g"
    and "current_node_index g \<noteq> target_node_index g" and "transition_current g = NULL"
  shows "is_transition_failure g = 0"
    and "GOFSM_OnTick h g w = Inl f \<longleftrightarrow> GOFSM_SearchNextStep h g = Inl f"
    and "GOFSM_OnTick h g w = Inr (g2, w2, ev) \<Longrightarrow> \<exists>ev'. ev = Searched # ev'"
proof -
  from assms(1,3) show z: "is_transition_failure g = 0"
    by (simp add: failure_has_transition_def)
  show "GOFSM_OnTick h g w = Inl f \<longleftrightarrow> GOFSM_SearchNextStep h g = Inl f"
  proof (cases "GOFSM_SearchNextStep h g")
    case (Inl e)
    with z assms(2) show ?thesis
      by (simp add: GOFSM_OnTick_def GOFSM_OnTick_replan_def)
  next
    case (Inr r)
    obtain p buf where r: "r = (p, buf)" by (cases r)
    show ?thesis
    proof (cases "p = NULL")
      case True
      with Inr r z assms(2) show ?thesis
        by (simp add: GOFSM_OnTick_def GOFSM_OnTick_replan_def GOFSM_OnTick_attempt_def)
    next
      case False
      with Inr r obtain t where "deref h p = Some t"
        using SearchNextStep_deref by blast
      with Inr r z assms(2) False show ?thesis
        by (simp add: GOFSM_OnTick_def GOFSM_OnTick_replan_def GOFSM_OnTick_attempt_def
            Let_def split: prod.splits)
    qed
  qed
  show "\<exists>ev'. ev = Searched # ev'" if "GOFSM_OnTick h g w = Inr (g2, w2, ev)"
    using that z assms(2)
    by (auto simp: GOFSM_OnTick_def GOFSM_OnTick_replan_def split: sum.splits)
qed

text \<open>
  C10. The invariant "a set failure flag comes with a cached transition" holds after
  \<^verbatim>\<open>GOFSM_InitStatic\<close> and after \<^verbatim>\<open>GOFSM_Init\<close>, and every public function preserves
  it. So, in an engine with the invariant, with current and target different and nothing
  cached, the failure flag is clear and the tick calls the search: it faults exactly
  when the search does, and otherwise its first event is the search.
\<close>

theorem C10_failure_flag_needs_cached_transition:
  "(\<forall>g0 g1. GOFSM_InitStatic g0 = Inr g1 \<longrightarrow> failure_has_transition g1) \<and>
   (\<forall>g0 tc nc mt mn g1. GOFSM_Init g0 tc nc mt mn = Inr g1 \<longrightarrow> failure_has_transition g1) \<and>
   (\<forall>c h' g' w' ev. failure_has_transition g \<and> exec c (h, g, w) = Inr ((h', g', w'), ev) \<longrightarrow>
      failure_has_transition g') \<and>
   (failure_has_transition g \<and> current_node_index g \<noteq> target_node_index g \<and>
    transition_current g = NULL \<longrightarrow>
      is_transition_failure g = 0 \<and>
      (\<forall>f. GOFSM_OnTick h g w = Inl f \<longleftrightarrow> GOFSM_SearchNextStep h g = Inl f) \<and>
      (\<forall>g2 w2 ev. GOFSM_OnTick h g w = Inr (g2, w2, ev) \<longrightarrow> (\<exists>ev'. ev = Searched # ev')))"
proof (intro conjI allI impI)
  fix g0 g1 :: GOFSM_t
  assume "GOFSM_InitStatic g0 = Inr g1"
  then show "failure_has_transition g1"
    by (auto simp: failure_has_transition_def dest!: InitStatic_fields)
next
  fix g0 g1 :: GOFSM_t and tc nc mt mn
  assume "GOFSM_Init g0 tc nc mt mn = Inr g1"
  then show "failure_has_transition g1"
    by (auto simp: failure_has_transition_def GOFSM_Init_def dest!: InitStatic_fields)
next
  fix c :: "'a call" and h' g' w' ev
  assume "failure_has_transition g \<and> exec c (h, g, w) = Inr ((h', g', w'), ev)"
  then show "failure_has_transition g'"
    using exec_failure_inv [of c h g w h' g' w' ev] by blast
next
  assume a: "failure_has_transition g \<and> current_node_index g \<noteq> target_node_index g \<and>
    transition_current g = NULL"
  then show "is_transition_failure g = 0"
    using tick_without_transition(1) [of g] by blast
next
  fix f
  assume a: "failure_has_transition g \<and> current_node_index g \<noteq> target_node_index g \<and>
    transition_current g = NULL"
  then show "GOFSM_OnTick h g w = Inl f \<longleftrightarrow> GOFSM_SearchNextStep h g = Inl f"
    using tick_without_transition(2) [of g h w f] by blast
next
  fix g2 w2 ev
  assume a: "failure_has_transition g \<and> current_node_index g \<noteq> target_node_index g \<and>
    transition_current g = NULL"
    and "GOFSM_OnTick h g w = Inr (g2, w2, ev)"
  then show "\<exists>ev'. ev = Searched # ev'"
    using tick_without_transition(3) [of g h w g2 w2 ev] by blast
qed

theorem C10_failure_flag_needs_cached_transition_witness:
  "GOFSM_InitStatic ex_engine =
     Inr (ex_engine\<lparr>transitions_count := 0, transitions := [NULL, NULL]\<rparr>) \<and>
   failure_has_transition (ex_engine\<lparr>transitions_count := 0, transitions := [NULL, NULL]\<rparr>) \<and>
   failure_has_transition ex_stuck_engine \<and>
   current_node_index ex_stuck_engine \<noteq> target_node_index ex_stuck_engine \<and>
   transition_current ex_stuck_engine = NULL \<and>
   is_transition_failure ex_stuck_engine = 0 \<and>
   GOFSM_OnTick ex_blocked_store ex_stuck_engine (0::nat) = Inr (ex_stuck_engine, 0, [Searched])"
proof -
  note inst = C10_failure_flag_needs_cached_transition [of ex_stuck_engine ex_blocked_store "0::nat"]
  have i: "GOFSM_InitStatic ex_engine =
     Inr (ex_engine\<lparr>transitions_count := 0, transitions := [NULL, NULL]\<rparr>)"
    by (simp add: GOFSM_InitStatic_def ex_engine_def upt_conv_Cons)
  with inst have a: "failure_has_transition (ex_engine\<lparr>transitions_count := 0, transitions := [NULL, NULL]\<rparr>)"
    by blast
  have s: "failure_has_transition ex_stuck_engine"
    "current_node_index ex_stuck_engine \<noteq> target_node_index ex_stuck_engine"
    "transition_current ex_stuck_engine = NULL"
    by (simp_all add: failure_has_transition_def ex_stuck_engine_def)
  with inst have z: "is_transition_failure ex_stuck_engine = 0"
    by blast
  have t: "GOFSM_OnTick ex_blocked_store ex_stuck_engine (0::nat) = Inr (ex_stuck_engine, 0, [Searched])"
    by (simp add: ex_blocked_store_def ex_stuck_engine_def tick_defs upt_conv_Cons)
  from i a s z t show ?thesis by blast
qed

section \<open>Registry changes and the topology flag\<close>

lemma AddTransition_marks_topology:
  "GOFSM_AddTransition g p = Inr (GOFSM_Error_No, g') \<Longrightarrow> is_graph_reconfigured g' = 1"
  by (auto simp: GOFSM_AddTransition_def split: if_splits)

lemma SetState_marks_topology:
  "GOFSM_Transition_SetState h g p st = Inr (h', g') \<Longrightarrow> is_graph_reconfigured g' = 1"
  by (auto simp: GOFSM_Transition_SetState_def split: ptr.splits option.splits)

lemma tick_searches_after_topology_change:
  assumes "current_node_index g \<noteq> target_node_index g" and "is_graph_reconfigured g \<noteq> 0"
    and "GOFSM_OnTick h g w = Inr (g', w', ev)"
  shows "\<exists>ev'. ev = Searched # ev'"
  using assms
  by (auto simp: GOFSM_OnTick_def GOFSM_OnTick_replan_def split: sum.splits)

lemma RemoveTransition_keeps_topology_flag:
  "GOFSM_RemoveTransition g p = Inr (e, g') \<Longrightarrow> is_graph_reconfigured g' = is_graph_reconfigured g"
  by (auto simp: GOFSM_RemoveTransition_def Let_def split: sum.splits option.splits if_splits)

text \<open>
  C1 fails for \<^verbatim>\<open>GOFSM_RemoveTransition\<close>, which never writes
  \<^verbatim>\<open>is_graph_reconfigured\<close>, while \<^verbatim>\<open>GOFSM_AddTransition\<close> and
  \<^verbatim>\<open>GOFSM_Transition_SetState\<close> set it and so make the next tick search (the four
  lemmas above). In the retry state of
  the scenario (current node 1, target 2, B cached, its action failed), removing B
  succeeds and leaves A alone registered and the flag clear; a search would now return
  \<open>NULL\<close>, but the next tick does not search and attempts the removed B again.
\<close>

theorem C1_remove_keeps_stale_transition:
  "GOFSM_RemoveTransition ex_retry_engine (Object 2) =
     Inr (GOFSM_Error_No, ex_retry_engine\<lparr>transitions_count := 1\<rparr>) \<and>
   registered (ex_retry_engine\<lparr>transitions_count := 1\<rparr>) = [Object 1] \<and>
   is_graph_reconfigured (ex_retry_engine\<lparr>transitions_count := 1\<rparr>) = 0 \<and>
   GOFSM_SearchNextStep ex_store (ex_retry_engine\<lparr>transitions_count := 1\<rparr>) = Inr (NULL, [2, 0, 0]) \<and>
   GOFSM_OnTick ex_store (ex_retry_engine\<lparr>transitions_count := 1\<rparr>) (0::nat) =
     Inr (ex_retry_engine\<lparr>transitions_count := 1\<rparr>, 1, [Attempted (Object 2)])"
  by (simp add: GOFSM_RemoveTransition_def memmove_down_def registered_def ex_retry_engine_def
      ex_store_def always_fails_def tick_defs Let_def upt_conv_Cons)

end
